theory Spec2Isabelle
  imports Main
begin

section \<open>Go strings: bytes, UTF-8 and the functions of package strings the program calls\<close>

text \<open>
  A Go string is a sequence of bytes; \<^typ>\<open>string\<close> (a list of 8-bit characters) is the
  same thing.  Runes (Unicode code points) are natural numbers.
\<close>

abbreviation byte :: "char \<Rightarrow> nat" where
  "byte c \<equiv> of_char c"

definition RuneError :: nat where
  "RuneError = 0xFFFD"

definition RuneSelf :: nat where
  "RuneSelf = 0x80"

text \<open>
  Table \<open>first\<close> of package unicode/utf8, for the lead bytes of multi-byte sequences:
  the length of the sequence and the range accepted for its second byte.
\<close>

definition first :: "nat \<Rightarrow> (nat \<times> nat \<times> nat) option" where
  "first b =
     (if 0xC2 \<le> b \<and> b \<le> 0xDF then Some (2, 0x80, 0xBF)
      else if b = 0xE0 then Some (3, 0xA0, 0xBF)
      else if 0xE1 \<le> b \<and> b \<le> 0xEC then Some (3, 0x80, 0xBF)
      else if b = 0xED then Some (3, 0x80, 0x9F)
      else if 0xEE \<le> b \<and> b \<le> 0xEF then Some (3, 0x80, 0xBF)
      else if b = 0xF0 then Some (4, 0x90, 0xBF)
      else if 0xF1 \<le> b \<and> b \<le> 0xF3 then Some (4, 0x80, 0xBF)
      else if b = 0xF4 then Some (4, 0x80, 0x8F)
      else None)"

text \<open>\<open>utf8.DecodeRuneInString\<close>: the first rune of \<open>s\<close> and its width in bytes;
  \<open>(RuneError, 1)\<close> for an invalid encoding, \<open>(RuneError, 0)\<close> for the empty string.\<close>

definition DecodeRuneInString :: "string \<Rightarrow> nat \<times> nat" where
  "DecodeRuneInString s =
     (if length s < 1 then (RuneError, 0)
      else let s0 = byte (s ! 0) in
        if s0 < RuneSelf then (s0, 1)
        else case first s0 of
          None \<Rightarrow> (RuneError, 1)
        | Some (sz, lo, hi) \<Rightarrow>
            if length s < sz then (RuneError, 1)
            else let s1 = byte (s ! 1) in
              if s1 < lo \<or> hi < s1 then (RuneError, 1)
              else if sz \<le> 2 then ((s0 mod 32) * 64 + s1 mod 64, 2)
              else let s2 = byte (s ! 2) in
                if s2 < 0x80 \<or> 0xBF < s2 then (RuneError, 1)
                else if sz \<le> 3 then ((s0 mod 16) * 4096 + (s1 mod 64) * 64 + s2 mod 64, 3)
                else let s3 = byte (s ! 3) in
                  if s3 < 0x80 \<or> 0xBF < s3 then (RuneError, 1)
                  else ((s0 mod 8) * 262144 + (s1 mod 64) * 4096 + (s2 mod 64) * 64
                          + s3 mod 64, 4))"

text \<open>\<open>utf8.RuneStart\<close>: the byte is not a continuation byte.\<close>

definition RuneStart :: "char \<Rightarrow> bool" where
  "RuneStart b \<longleftrightarrow> \<not> (0x80 \<le> byte b \<and> byte b \<le> 0xBF)"

text \<open>The backwards scan of \<open>utf8.DecodeLastRuneInString\<close>:
  \<open>for start--; start >= lim; start-- { if RuneStart(s[start]) { break } }\<close>,
  entered with \<open>start\<close> already decremented.\<close>

function scan_back :: "string \<Rightarrow> int \<Rightarrow> int \<Rightarrow> int" where
  "scan_back s start lim =
     (if start \<ge> lim \<and> start \<ge> 0
      then (if RuneStart (s ! nat start) then start else scan_back s (start - 1) lim)
      else start)"
  by pat_completeness auto
termination
  by (relation "measure (\<lambda>(s, start, lim). nat (start + 1))") auto

declare scan_back.simps [simp del]

text \<open>\<open>utf8.DecodeLastRuneInString\<close>: the last rune of \<open>s\<close> and its width.\<close>

definition DecodeLastRuneInString :: "string \<Rightarrow> nat \<times> nat" where
  "DecodeLastRuneInString s =
     (let end = int (length s) in
      if end = 0 then (RuneError, 0)
      else let r = byte (s ! nat (end - 1)) in
        if r < RuneSelf then (r, 1)
        else let lim = max 0 (end - 4);
                 start = max 0 (scan_back s (end - 2) lim);
                 (r, n) = DecodeRuneInString (drop (nat start) s)
             in if start + int n \<noteq> end then (RuneError, 1) else (r, n))"

text \<open>\<open>unicode.IsSpace\<close>: the Latin-1 spaces and the code points of White_Space above
  Latin-1.\<close>

definition IsSpace :: "nat \<Rightarrow> bool" where
  "IsSpace r \<longleftrightarrow>
     r = 0x09 \<or> r = 0x0A \<or> r = 0x0B \<or> r = 0x0C \<or> r = 0x0D \<or> r = 0x20 \<or> r = 0x85 \<or> r = 0xA0
     \<or> r = 0x1680 \<or> (0x2000 \<le> r \<and> r \<le> 0x200A) \<or> r = 0x2028 \<or> r = 0x2029
     \<or> r = 0x202F \<or> r = 0x205F \<or> r = 0x3000"

lemma DecodeRuneInString_size_pos: "s \<noteq> [] \<Longrightarrow> 0 < snd (DecodeRuneInString s)"
  by (cases s) (auto simp: DecodeRuneInString_def Let_def split: option.splits)

lemma DecodeRuneInString_size_le4: "snd (DecodeRuneInString s) \<le> 4"
  by (auto simp: DecodeRuneInString_def Let_def split: option.splits)

lemma scan_back_le: "scan_back s start lim \<le> start"
proof (induction s start lim rule: scan_back.induct)
  case (1 s start lim)
  then show ?case by (subst scan_back.simps) auto
qed

lemma DecodeLastRuneInString_size_pos:
  assumes "s \<noteq> []"
  shows "0 < snd (DecodeLastRuneInString s)"
proof -
  let ?e = "int (length s)"
  let ?start = "max 0 (scan_back s (?e - 2) (max 0 (?e - 4)))"
  from assms have "nat ?start < length s"
    using scan_back_le [of s "?e - 2" "max 0 (?e - 4)"] by (cases s) auto
  then have "drop (nat ?start) s \<noteq> []" by simp
  then have "0 < snd (DecodeRuneInString (drop (nat ?start) s))"
    by (rule DecodeRuneInString_size_pos)
  with assms show ?thesis
    by (auto simp: DecodeLastRuneInString_def Let_def split: prod.splits)
qed

lemma DecodeLastRuneInString_space_size_pos:
  "DecodeLastRuneInString t = (r, n) \<Longrightarrow> IsSpace r \<Longrightarrow> 0 < n"
  using DecodeLastRuneInString_size_pos [of t]
  by (cases "t = []") (auto simp: DecodeLastRuneInString_def IsSpace_def RuneError_def)

text \<open>\<open>strings.TrimLeftFunc(s, unicode.IsSpace)\<close>: drop leading runes while they are
  spaces (a range loop over the string, decoding rune by rune).\<close>

function TrimLeftSpace :: "string \<Rightarrow> string" where
  "TrimLeftSpace [] = []"
| "TrimLeftSpace (c # s) =
     (case DecodeRuneInString (c # s) of
        (r, n) \<Rightarrow> if IsSpace r then TrimLeftSpace (drop n (c # s)) else c # s)"
  by pat_completeness auto
termination
  apply (relation "measure length")
   apply simp
  subgoal for c s x y
    using DecodeRuneInString_size_pos [of "c # s"] by (drule_tac sym) simp
  done

text \<open>\<open>lastIndexFunc(s, unicode.IsSpace, false)\<close> on \<open>s[0:i]\<close>: the index where the last
  rune that is not a space starts, or -1.\<close>

function lastIndexNotSpace :: "string \<Rightarrow> nat \<Rightarrow> int" where
  "lastIndexNotSpace s i =
     (if i = 0 then - 1
      else case DecodeLastRuneInString (take i s) of
        (r, n) \<Rightarrow>
          if \<not> IsSpace r then int (i - n)
          else lastIndexNotSpace s (i - n))"
  by pat_completeness auto
termination
  apply (relation "measure (\<lambda>(s, i). i)")
   apply simp
  subgoal for s i x y
    using DecodeLastRuneInString_space_size_pos [of "take i s" x y] by (drule_tac sym) simp
  done

declare lastIndexNotSpace.simps [simp del]

text \<open>\<open>strings.TrimRightFunc(s, unicode.IsSpace)\<close>.\<close>

definition TrimRightSpace :: "string \<Rightarrow> string" where
  "TrimRightSpace s =
     (let i = lastIndexNotSpace s (length s) in
      if i \<ge> 0 \<and> byte (s ! nat i) \<ge> RuneSelf
      then take (nat i + snd (DecodeRuneInString (drop (nat i) s))) s
      else take (nat (i + 1)) s)"

text \<open>\<open>strings.TrimSpace\<close>: all leading and trailing white space removed, as defined by
  Unicode (\<open>TrimFunc(s, unicode.IsSpace)\<close>; the ASCII fast path of the library computes
  the same slice).\<close>

definition TrimSpace :: "string \<Rightarrow> string" where
  "TrimSpace s = TrimRightSpace (TrimLeftSpace s)"

definition HasPrefix :: "string \<Rightarrow> string \<Rightarrow> bool" where
  "HasPrefix s p \<longleftrightarrow> length s \<ge> length p \<and> take (length p) s = p"

definition HasSuffix :: "string \<Rightarrow> string \<Rightarrow> bool" where
  "HasSuffix s p \<longleftrightarrow> length s \<ge> length p \<and> drop (length s - length p) s = p"

definition TrimPrefix :: "string \<Rightarrow> string \<Rightarrow> string" where
  "TrimPrefix s p = (if HasPrefix s p then drop (length p) s else s)"

definition TrimSuffix :: "string \<Rightarrow> string \<Rightarrow> string" where
  "TrimSuffix s p = (if HasSuffix s p then take (length s - length p) s else s)"

text \<open>\<open>strings.Split(s, sep)\<close> for a separator of one byte (the program splits on
  \<open>"\\n"\<close> only): one more piece than there are separators, \<open>[""]\<close> for the empty string.\<close>

fun Split :: "string \<Rightarrow> char \<Rightarrow> string list" where
  "Split [] sep = [[]]"
| "Split (c # s) sep =
     (if c = sep then [] # Split s sep
      else case Split s sep of p # ps \<Rightarrow> (c # p) # ps | [] \<Rightarrow> [[c]])"

text \<open>\<open>strings.Join(elems, sep)\<close>.\<close>

fun Join :: "string list \<Rightarrow> string \<Rightarrow> string" where
  "Join [] sep = []"
| "Join [x] sep = x"
| "Join (x # y # ys) sep = x @ sep @ Join (y # ys) sep"

section \<open>The work list file\<close>

text \<open>
  The file system as far as the program uses it: a file has a content and may be
  read-only; \<open>os.ReadFile\<close> fails on a missing file, \<open>os.WriteFile\<close> creates a missing
  file and fails on a read-only one.
\<close>

datatype os_error = ErrNotExist | ErrPermission | ErrTooLong

record fs_file =
  file_data :: string
  read_only :: bool

type_synonym filesystem = "string \<rightharpoonup> fs_file"

definition ReadFile :: "filesystem \<Rightarrow> string \<Rightarrow> os_error + string" where
  "ReadFile fs path = (case fs path of None \<Rightarrow> Inl ErrNotExist | Some f \<Rightarrow> Inr (file_data f))"

definition WriteFile :: "filesystem \<Rightarrow> string \<Rightarrow> string \<Rightarrow> os_error + filesystem" where
  "WriteFile fs path data =
     (case fs path of
        None \<Rightarrow> Inr (fs(path \<mapsto> \<lparr>file_data = data, read_only = False\<rparr>))
      | Some f \<Rightarrow> if read_only f then Inl ErrPermission
                  else Inr (fs(path \<mapsto> f\<lparr>file_data := data\<rparr>)))"

text \<open>The loop of \<open>removeURLFromFile\<close>: every line is trimmed and appended to \<open>newLines\<close>
  unless it is empty or equals the URL.\<close>

fun removeURL_loop :: "string list \<Rightarrow> string \<Rightarrow> string list \<Rightarrow> string list" where
  "removeURL_loop [] urlToRemove newLines = newLines"
| "removeURL_loop (line # lines) urlToRemove newLines =
     (let line' = TrimSpace line in
      if line' \<noteq> [] \<and> line' \<noteq> urlToRemove
      then removeURL_loop lines urlToRemove (newLines @ [line'])
      else removeURL_loop lines urlToRemove newLines)"

text \<open>\<open>removeURLFromFile\<close> (the mutex serialises the calls; one call is modelled).\<close>

definition removeURLFromFile :: "filesystem \<Rightarrow> string \<Rightarrow> string \<Rightarrow> os_error + filesystem" where
  "removeURLFromFile fs filePath urlToRemove =
     (case ReadFile fs filePath of
        Inl err \<Rightarrow> Inl err
      | Inr data \<Rightarrow>
          let lines = Split data (CHR 0x0A);
              newLines = removeURL_loop lines urlToRemove []
          in WriteFile fs filePath (Join newLines [CHR 0x0A] @ [CHR 0x0A]))"


text \<open>The content of the work list file after a removal.\<close>

definition file_after :: "filesystem \<Rightarrow> string \<Rightarrow> string \<Rightarrow> os_error + string" where
  "file_after fs filePath urlToRemove =
     (case removeURLFromFile fs filePath urlToRemove of
        Inl err \<Rightarrow> Inl err
      | Inr fs' \<Rightarrow> ReadFile fs' filePath)"

text \<open>The rewrite as the specification words it: the trimmed lines that are not blank, not
  comments and not the removed unit, without duplicates, one per line.\<close>

definition claimed_rewrite :: "string \<Rightarrow> string \<Rightarrow> string" where
  "claimed_rewrite data u =
     concat (map (\<lambda>l. l @ [CHR 0x0A])
       (remdups (filter (\<lambda>l. l \<noteq> [] \<and> \<not> HasPrefix l ''#'' \<and> l \<noteq> u)
          (map TrimSpace (Split data (CHR 0x0A))))))"

text \<open>A work list with a comment, a duplicate, a blank line and padding.\<close>

definition worklist_example :: filesystem where
  "worklist_example =
     [''projects.txt'' \<mapsto> \<lparr>file_data = ''# c\<newline>a\<newline> a \<newline>\<newline>b\<newline>'', read_only = False\<rparr>]"

text \<open>The lines \<open>removeURLFromFile\<close> keeps: trimmed, not blank and not the unit.\<close>

definition kept_lines :: "string \<Rightarrow> string \<Rightarrow> string list" where
  "kept_lines data u = filter (\<lambda>l. l \<noteq> [] \<and> l \<noteq> u) (map TrimSpace (Split data (CHR 0x0A)))"

text \<open>
  Trimming as the specification words it, on ASCII text: the white space bytes (tab, line
  feed, vertical tab, form feed, carriage return, space) are dropped at both ends.  It
  is compared with \<open>TrimSpace\<close> below.
\<close>

definition ascii_space :: "char \<Rightarrow> bool" where
  "ascii_space c \<longleftrightarrow>
     c = CHR 0x09 \<or> c = CHR 0x0A \<or> c = CHR 0x0B \<or> c = CHR 0x0C \<or> c = CHR 0x0D \<or> c = CHR '' ''"

definition trim_ascii :: "string \<Rightarrow> string" where
  "trim_ascii s = rev (dropWhile ascii_space (rev (dropWhile ascii_space s)))"

definition is_ascii :: "string \<Rightarrow> bool" where
  "is_ascii s \<longleftrightarrow> list_all (\<lambda>c. byte c < 0x80) s"

text \<open>A work list whose first line is the unit \<open>a\<close> between a no-break space (U+00A0) and
  an ideographic space (U+3000).\<close>

definition worklist_unicode :: filesystem where
  "worklist_unicode =
     [''projects.txt'' \<mapsto>
        \<lparr>file_data = [CHR 0xC2, CHR 0xA0, CHR ''a'', CHR 0xE3, CHR 0x80, CHR 0x80, CHR 0x0A,
                      CHR ''b'', CHR 0x0A],
         read_only = False\<rparr>]"

section \<open>The collector\<close>

text \<open>\<open>TranslationItem\<close>: id, source text (JSON key \<open>text\<close>) and translation.\<close>

record TranslationItem =
  ID :: string
  Original :: string
  Translation :: string

text \<open>
  A rendered row, as the browser answers the queries \<open>scrollAndCollect\<close> makes on it:
  \<open>data_id\<close> is \<open>GetAttribute("data-id")\<close> (the empty string when the attribute is
  missing or the call fails), \<open>empty_count\<close> the number of \<open>.empty\<close> markers in the
  cell of the target language, \<open>cell_text\<close> that cell's inner text,
  \<open>highlight_text\<close> the inner text of the first highlighted span of the source cell
  (\<open>None\<close> when the call returns an error) and \<open>base_text\<close> the inner text of the
  source cell.
\<close>

record row =
  data_id :: string
  empty_count :: nat
  cell_text :: string
  highlight_text :: "string option"
  base_text :: string

definition maxNoNewRetries :: nat where
  "maxNoNewRetries = 5"

definition scrollStep :: nat where
  "scrollStep = 800"

text \<open>The loop over the rows of one snapshot.  The accumulator holds \<open>results\<close>,
  \<open>seen\<close> and \<open>newAddedThisStep\<close>.\<close>

fun collect_rows ::
  "row list \<Rightarrow> TranslationItem list \<times> string set \<times> nat \<Rightarrow> TranslationItem list \<times> string set \<times> nat" where
  "collect_rows [] acc = acc"
| "collect_rows (r # rows) (results, seen, newAddedThisStep) =
     (let id = data_id r in
      if id = [] \<or> id \<in> seen then collect_rows rows (results, seen, newAddedThisStep)
      else
        let seen' = insert id seen;
            newAdded' = newAddedThisStep + 1;
            cellText = cell_text r
        in if empty_count r > 0 \<or> TrimSpace cellText = [] \<or> TrimSpace cellText = ''Empty''
           then
             let originalText =
                   (case highlight_text r of
                      None \<Rightarrow> base_text r
                    | Some t \<Rightarrow> if t = [] then base_text r else t)
             in collect_rows rows
                  (results @ [\<lparr>ID = id, Original = TrimSpace originalText, Translation = []\<rparr>],
                   seen', newAdded')
           else collect_rows rows (results, seen', newAdded'))"

text \<open>The variables of the outer loop.  \<open>totalScrolled\<close> is a float64 in the source;
  it only ever holds a multiple of the scroll step, so a natural number stands for it.\<close>

record collector =
  results :: "TranslationItem list"
  seen :: "string set"
  noNewElementsCount :: nat
  totalScrolled :: nat

text \<open>One pass of the outer loop on the rows of a snapshot.\<close>

definition scroll_pass :: "row list \<Rightarrow> collector \<Rightarrow> collector" where
  "scroll_pass rows st =
     (case collect_rows rows (results st, seen st, 0) of
        (results', seen', newAddedThisStep) \<Rightarrow>
          \<lparr>results = results', seen = seen',
           noNewElementsCount = (if newAddedThisStep > 0 then 0 else noNewElementsCount st + 1),
           totalScrolled = totalScrolled st + scrollStep\<rparr>)"

text \<open>
  The outer loop \<open>for noNewElementsCount < maxNoNewRetries\<close>.  \<open>provider n\<close> is the
  answer to the \<open>n\<close>-th query \<open>page.Locator(".row-key[data-id]").All()\<close>: the rows
  rendered then, or \<open>None\<close> for an error, on which the loop breaks.  The loop need
  not end (a provider can show new rows for ever): the result is \<open>None\<close> then.
\<close>

partial_function (option) scroll_loop ::
  "(nat \<Rightarrow> row list option) \<Rightarrow> nat \<Rightarrow> collector \<Rightarrow> collector option" where
  "scroll_loop provider n st =
     (if noNewElementsCount st < maxNoNewRetries
      then (case provider n of
              None \<Rightarrow> Some st
            | Some rows \<Rightarrow> scroll_loop provider (Suc n) (scroll_pass rows st))
      else Some st)"

definition collector_init :: collector where
  "collector_init = \<lparr>results = [], seen = {}, noNewElementsCount = 0, totalScrolled = 0\<rparr>"

text \<open>\<open>scrollAndCollect\<close> returns \<open>results\<close> and never an error.\<close>

definition scrollAndCollect :: "(nat \<Rightarrow> row list option) \<Rightarrow> TranslationItem list option" where
  "scrollAndCollect provider = map_option results (scroll_loop provider 0 collector_init)"


text \<open>The invariants of the loop: the collected ids are distinct and all marked seen;
  the empty id is neither seen nor collected.\<close>

definition ids_distinct :: "TranslationItem list \<Rightarrow> string set \<Rightarrow> bool" where
  "ids_distinct res sn \<longleftrightarrow> distinct (map ID res) \<and> ID ` set res \<subseteq> sn"

definition ids_nonempty :: "TranslationItem list \<Rightarrow> string set \<Rightarrow> bool" where
  "ids_nonempty res sn \<longleftrightarrow> [] \<notin> sn \<and> [] \<notin> ID ` set res"

text \<open>A snapshot with a row to translate, the same id again and a row without id; a
  provider that shows it once and nothing afterwards.\<close>

definition example_rows :: "row list" where
  "example_rows =
     [\<lparr>data_id = ''5'', empty_count = 1, cell_text = ''Empty'',
       highlight_text = Some '' Hello '', base_text = ''Hello world''\<rparr>,
      \<lparr>data_id = ''5'', empty_count = 1, cell_text = [],
       highlight_text = None, base_text = ''again''\<rparr>,
      \<lparr>data_id = [], empty_count = 1, cell_text = [],
       highlight_text = None, base_text = ''no id''\<rparr>]"

definition example_provider :: "nat \<Rightarrow> row list option" where
  "example_provider n = (if n = 0 then Some example_rows else Some [])"

section \<open>JSON as package encoding/json reads it\<close>

text \<open>
  \<open>json.Unmarshal\<close> first checks that the whole input is one valid JSON text (its scanner,
  a state machine over the bytes) and then decodes the values into the Go value it is
  given.  The model has the same two phases: a lexer and a parser that accept exactly the
  valid texts and build the value, and a decoder into \<open>GeminiResponse\<close>.
\<close>

datatype json =
    JNull
  | JBool bool
  | JNumber string
  | JString string
  | JArray "json list"
  | JObject "(string \<times> json) list"

datatype token =
    TBeginObject | TEndObject | TBeginArray | TEndArray | TColon | TComma
  | TString string | TNumber string | TTrue | TFalse | TNull

subsection \<open>Lexical structure\<close>

text \<open>The scanner's states inside a number (\<open>stateNeg\<close>, \<open>state0\<close>, \<open>state1\<close>,
  \<open>stateDot\<close>, \<open>stateDot0\<close>, \<open>stateE\<close>, \<open>stateESign\<close>, \<open>stateE0\<close>).\<close>

datatype num_state = stNeg | st0 | st1 | stDot | stDot0 | stE | stESign | stE0

definition is_digit :: "char \<Rightarrow> bool" where
  "is_digit c \<longleftrightarrow> 0x30 \<le> byte c \<and> byte c \<le> 0x39"

definition is_hex :: "char \<Rightarrow> bool" where
  "is_hex c \<longleftrightarrow> is_digit c \<or> (0x61 \<le> byte c \<and> byte c \<le> 0x66) \<or> (0x41 \<le> byte c \<and> byte c \<le> 0x46)"

definition num_step :: "num_state \<Rightarrow> char \<Rightarrow> num_state option" where
  "num_step s c =
     (case s of
        stNeg \<Rightarrow> if c = CHR ''0'' then Some st0 else if is_digit c then Some st1 else None
      | st0 \<Rightarrow> if c = CHR ''.'' then Some stDot
               else if c = CHR ''e'' \<or> c = CHR ''E'' then Some stE else None
      | st1 \<Rightarrow> if is_digit c then Some st1 else if c = CHR ''.'' then Some stDot
               else if c = CHR ''e'' \<or> c = CHR ''E'' then Some stE else None
      | stDot \<Rightarrow> if is_digit c then Some stDot0 else None
      | stDot0 \<Rightarrow> if is_digit c then Some stDot0
               else if c = CHR ''e'' \<or> c = CHR ''E'' then Some stE else None
      | stE \<Rightarrow> if c = CHR ''+'' \<or> c = CHR ''-'' then Some stESign
               else if is_digit c then Some stE0 else None
      | stESign \<Rightarrow> if is_digit c then Some stE0 else None
      | stE0 \<Rightarrow> if is_digit c then Some stE0 else None)"

definition num_accepting :: "num_state \<Rightarrow> bool" where
  "num_accepting s \<longleftrightarrow> s = st0 \<or> s = st1 \<or> s = stDot0 \<or> s = stE0"

text \<open>
  The states of the lexer: between tokens; inside a string (with the bytes read so far,
  last first), after a backslash, inside the four hex digits of \<open>\\u\<close>; inside a number;
  inside \<open>true\<close>, \<open>false\<close> or \<open>null\<close> (with the bytes still expected).
\<close>

datatype lex_state =
    InValue
  | InString string
  | InStringEsc string
  | InStringEscU nat string
  | InNumber num_state string
  | InLiteral string token

definition json_space :: "char \<Rightarrow> bool" where
  "json_space c \<longleftrightarrow> c = CHR '' '' \<or> c = CHR 0x09 \<or> c = CHR 0x0D \<or> c = CHR 0x0A"

text \<open>A byte between tokens: skipped white space, a token of one byte, or the first byte
  of a longer token.\<close>

definition begin_token :: "char \<Rightarrow> (token list \<times> lex_state) option" where
  "begin_token c =
     (if json_space c then Some ([], InValue)
      else if c = CHR ''{'' then Some ([TBeginObject], InValue)
      else if c = CHR ''}'' then Some ([TEndObject], InValue)
      else if c = CHR ''['' then Some ([TBeginArray], InValue)
      else if c = CHR '']'' then Some ([TEndArray], InValue)
      else if c = CHR '':'' then Some ([TColon], InValue)
      else if c = CHR '','' then Some ([TComma], InValue)
      else if c = CHR 0x22 then Some ([], InString [])
      else if c = CHR ''-'' then Some ([], InNumber stNeg [c])
      else if c = CHR ''0'' then Some ([], InNumber st0 [c])
      else if is_digit c then Some ([], InNumber st1 [c])
      else if c = CHR ''t'' then Some ([], InLiteral ''rue'' TTrue)
      else if c = CHR ''f'' then Some ([], InLiteral ''alse'' TFalse)
      else if c = CHR ''n'' then Some ([], InLiteral ''ull'' TNull)
      else None)"

text \<open>One byte: the tokens it completes and the next state, or \<open>None\<close> for a syntax
  error.  A string token carries the bytes between its quotes, escapes not yet resolved.\<close>

definition lex_step :: "lex_state \<Rightarrow> char \<Rightarrow> (token list \<times> lex_state) option" where
  "lex_step st c =
     (case st of
        InValue \<Rightarrow> begin_token c
      | InString acc \<Rightarrow>
          if c = CHR 0x22 then Some ([TString (rev acc)], InValue)
          else if c = CHR 0x5C then Some ([], InStringEsc (c # acc))
          else if byte c < 0x20 then None
          else Some ([], InString (c # acc))
      | InStringEsc acc \<Rightarrow>
          if c = CHR ''b'' \<or> c = CHR ''f'' \<or> c = CHR ''n'' \<or> c = CHR ''r'' \<or> c = CHR ''t''
             \<or> c = CHR 0x5C \<or> c = CHR ''/'' \<or> c = CHR 0x22
          then Some ([], InString (c # acc))
          else if c = CHR ''u'' then Some ([], InStringEscU 4 (c # acc))
          else None
      | InStringEscU k acc \<Rightarrow>
          if is_hex c
          then (if k \<le> 1 then Some ([], InString (c # acc))
                else Some ([], InStringEscU (k - 1) (c # acc)))
          else None
      | InNumber s acc \<Rightarrow>
          (case num_step s c of
             Some s' \<Rightarrow> Some ([], InNumber s' (c # acc))
           | None \<Rightarrow>
               if num_accepting s
               then (case begin_token c of
                       None \<Rightarrow> None
                     | Some (ts, st') \<Rightarrow> Some (TNumber (rev acc) # ts, st'))
               else None)
      | InLiteral rest t \<Rightarrow>
          (case rest of
             [] \<Rightarrow> None
           | x # xs \<Rightarrow>
               if c = x then (if xs = [] then Some ([t], InValue) else Some ([], InLiteral xs t))
               else None))"

fun lex_run :: "lex_state \<Rightarrow> string \<Rightarrow> (token list \<times> lex_state) option" where
  "lex_run st [] = Some ([], st)"
| "lex_run st (c # cs) =
     (case lex_step st c of
        None \<Rightarrow> None
      | Some (ts, st') \<Rightarrow>
          (case lex_run st' cs of
             None \<Rightarrow> None
           | Some (ts', st'') \<Rightarrow> Some (ts @ ts', st'')))"

text \<open>At the end of the input only a finished number may be pending.\<close>

definition lex_end :: "lex_state \<Rightarrow> token list option" where
  "lex_end st =
     (case st of
        InValue \<Rightarrow> Some []
      | InNumber s acc \<Rightarrow> if num_accepting s then Some [TNumber (rev acc)] else None
      | _ \<Rightarrow> None)"

definition json_lex :: "string \<Rightarrow> token list option" where
  "json_lex s =
     (case lex_run InValue s of
        None \<Rightarrow> None
      | Some (ts, st) \<Rightarrow> (case lex_end st of None \<Rightarrow> None | Some ts' \<Rightarrow> Some (ts @ ts')))"

subsection \<open>Strings: \<open>unquote\<close>\<close>

definition hex_val :: "char \<Rightarrow> nat option" where
  "hex_val c =
     (if is_digit c then Some (byte c - 0x30)
      else if 0x61 \<le> byte c \<and> byte c \<le> 0x66 then Some (byte c - 0x61 + 10)
      else if 0x41 \<le> byte c \<and> byte c \<le> 0x46 then Some (byte c - 0x41 + 10)
      else None)"

text \<open>\<open>getu4\<close>: the code unit of \<open>\\uXXXX\<close> at the head of \<open>s\<close>, or \<open>None\<close> (-1 in Go).\<close>

definition getu4 :: "string \<Rightarrow> nat option" where
  "getu4 s =
     (case s of
        b # u # h1 # h2 # h3 # h4 # _ \<Rightarrow>
          if b = CHR 0x5C \<and> u = CHR ''u''
          then (case (hex_val h1, hex_val h2, hex_val h3, hex_val h4) of
                  (Some a, Some b, Some c, Some d) \<Rightarrow> Some (((a * 16 + b) * 16 + c) * 16 + d)
                | _ \<Rightarrow> None)
          else None
      | _ \<Rightarrow> None)"

text \<open>\<open>utf16.IsSurrogate\<close> and \<open>utf16.DecodeRune\<close>; the second code unit is \<open>None\<close>
  when \<open>getu4\<close> found none.\<close>

definition IsSurrogate :: "nat \<Rightarrow> bool" where
  "IsSurrogate r \<longleftrightarrow> 0xD800 \<le> r \<and> r < 0xE000"

definition utf16_DecodeRune :: "nat \<Rightarrow> nat option \<Rightarrow> nat" where
  "utf16_DecodeRune r1 r2 =
     (case r2 of
        None \<Rightarrow> RuneError
      | Some r2' \<Rightarrow>
          if 0xD800 \<le> r1 \<and> r1 < 0xDC00 \<and> 0xDC00 \<le> r2' \<and> r2' < 0xE000
          then (r1 - 0xD800) * 1024 + (r2' - 0xDC00) + 0x10000
          else RuneError)"

text \<open>\<open>utf8.EncodeRune\<close>: surrogates and values above U+10FFFF are encoded as U+FFFD.\<close>

definition EncodeRune :: "nat \<Rightarrow> string" where
  "EncodeRune r =
     (if r \<le> 0x7F then [char_of r]
      else if r \<le> 0x7FF then [char_of (0xC0 + r div 64), char_of (0x80 + r mod 64)]
      else if r > 0x10FFFF \<or> (0xD800 \<le> r \<and> r \<le> 0xDFFF)
        then [CHR 0xEF, CHR 0xBF, CHR 0xBD]
      else if r \<le> 0xFFFF
        then [char_of (0xE0 + r div 4096), char_of (0x80 + (r div 64) mod 64),
              char_of (0x80 + r mod 64)]
      else [char_of (0xF0 + r div 262144), char_of (0x80 + (r div 4096) mod 64),
            char_of (0x80 + (r div 64) mod 64), char_of (0x80 + r mod 64)])"

text \<open>
  \<open>unquoteBytes\<close> on the bytes between the quotes: escapes are resolved, a \<open>\\u\<close>
  surrogate pair becomes one rune and a lone surrogate U+FFFD, and bytes that are not
  valid UTF-8 are replaced by U+FFFD.  \<open>None\<close> is \<open>ok = false\<close>.
\<close>

function unquote :: "string \<Rightarrow> string option" where
  "unquote [] = Some []"
| "unquote (c # s) =
     (if c = CHR 0x5C then
        (case s of
           [] \<Rightarrow> None
         | e # s' \<Rightarrow>
             if e = CHR 0x22 \<or> e = CHR 0x5C \<or> e = CHR ''/'' \<or> e = CHR 0x27
               then map_option ((#) e) (unquote s')
             else if e = CHR ''b'' then map_option ((#) (CHR 0x08)) (unquote s')
             else if e = CHR ''f'' then map_option ((#) (CHR 0x0C)) (unquote s')
             else if e = CHR ''n'' then map_option ((#) (CHR 0x0A)) (unquote s')
             else if e = CHR ''r'' then map_option ((#) (CHR 0x0D)) (unquote s')
             else if e = CHR ''t'' then map_option ((#) (CHR 0x09)) (unquote s')
             else if e = CHR ''u'' then
               (case getu4 (c # s) of
                  None \<Rightarrow> None
                | Some rr \<Rightarrow>
                    if IsSurrogate rr then
                      (let dec = utf16_DecodeRune rr (getu4 (drop 4 s')) in
                       if dec \<noteq> RuneError
                       then map_option ((@) (EncodeRune dec)) (unquote (drop 10 s'))
                       else map_option ((@) (EncodeRune RuneError)) (unquote (drop 4 s')))
                    else map_option ((@) (EncodeRune rr)) (unquote (drop 4 s')))
             else None)
      else if c = CHR 0x22 \<or> byte c < 0x20 then None
      else if byte c < RuneSelf then map_option ((#) c) (unquote s)
      else (case DecodeRuneInString (c # s) of
              (rr, n) \<Rightarrow> map_option ((@) (EncodeRune rr)) (unquote (drop n (c # s)))))"
  by pat_completeness auto
termination
  apply (relation "measure length")
              apply simp_all
  subgoal for c s x y
    using DecodeRuneInString_size_pos [of "c # s"] by (drule_tac sym) simp
  done

subsection \<open>Syntax\<close>

text \<open>
  The parser is the scanner's push-down automaton: a state (what may come next) and a
  stack of the arrays and objects that are open, here with the values read so far (last
  first).  An object frame that waits for the value of a key carries the key.
\<close>

datatype frame =
    ArrayFrame "json list"
  | ObjectFrame "(string \<times> json) list"
  | ObjectValueFrame "(string \<times> json) list" string

datatype parse_state =
    BeginValue
  | BeginValueOrEmpty
  | BeginStringOrEmpty
  | BeginString
  | ObjectKey
  | EndValue
  | EndTop json

definition maxNestingDepth :: nat where
  "maxNestingDepth = 10000"

text \<open>A value is complete: it is the top-level value, the next element of the open array
  or the value of the pending key.\<close>

definition complete :: "json \<Rightarrow> frame list \<Rightarrow> (parse_state \<times> frame list) option" where
  "complete v stack =
     (case stack of
        [] \<Rightarrow> Some (EndTop v, [])
      | ArrayFrame es # st \<Rightarrow> Some (EndValue, ArrayFrame (v # es) # st)
      | ObjectValueFrame ms k # st \<Rightarrow> Some (EndValue, ObjectFrame ((k, v) # ms) # st)
      | ObjectFrame ms # st \<Rightarrow> None)"

definition begin_value :: "token \<Rightarrow> frame list \<Rightarrow> (parse_state \<times> frame list) option" where
  "begin_value t stack =
     (case t of
        TBeginObject \<Rightarrow>
          if length stack < maxNestingDepth then Some (BeginStringOrEmpty, ObjectFrame [] # stack)
          else None
      | TBeginArray \<Rightarrow>
          if length stack < maxNestingDepth then Some (BeginValueOrEmpty, ArrayFrame [] # stack)
          else None
      | TString raw \<Rightarrow> (case unquote raw of None \<Rightarrow> None | Some s \<Rightarrow> complete (JString s) stack)
      | TNumber n \<Rightarrow> complete (JNumber n) stack
      | TTrue \<Rightarrow> complete (JBool True) stack
      | TFalse \<Rightarrow> complete (JBool False) stack
      | TNull \<Rightarrow> complete JNull stack
      | _ \<Rightarrow> None)"

definition begin_key :: "token \<Rightarrow> frame list \<Rightarrow> (parse_state \<times> frame list) option" where
  "begin_key t stack =
     (case (t, stack) of
        (TString raw, ObjectFrame ms # st) \<Rightarrow>
          (case unquote raw of None \<Rightarrow> None | Some k \<Rightarrow> Some (ObjectKey, ObjectValueFrame ms k # st))
      | _ \<Rightarrow> None)"

definition parse_step ::
  "parse_state \<times> frame list \<Rightarrow> token \<Rightarrow> (parse_state \<times> frame list) option" where
  "parse_step cfg t =
     (case cfg of (ps, stack) \<Rightarrow>
        (case ps of
           BeginValue \<Rightarrow> begin_value t stack
         | BeginValueOrEmpty \<Rightarrow>
             (case (t, stack) of
                (TEndArray, ArrayFrame es # st) \<Rightarrow> complete (JArray (rev es)) st
              | _ \<Rightarrow> begin_value t stack)
         | BeginStringOrEmpty \<Rightarrow>
             (case (t, stack) of
                (TEndObject, ObjectFrame ms # st) \<Rightarrow> complete (JObject (rev ms)) st
              | _ \<Rightarrow> begin_key t stack)
         | BeginString \<Rightarrow> begin_key t stack
         | ObjectKey \<Rightarrow> (case t of TColon \<Rightarrow> Some (BeginValue, stack) | _ \<Rightarrow> None)
         | EndValue \<Rightarrow>
             (case (t, stack) of
                (TComma, ArrayFrame es # st) \<Rightarrow> Some (BeginValue, stack)
              | (TComma, ObjectFrame ms # st) \<Rightarrow> Some (BeginString, stack)
              | (TEndArray, ArrayFrame es # st) \<Rightarrow> complete (JArray (rev es)) st
              | (TEndObject, ObjectFrame ms # st) \<Rightarrow> complete (JObject (rev ms)) st
              | _ \<Rightarrow> None)
         | EndTop v \<Rightarrow> None))"

fun parse_run :: "parse_state \<times> frame list \<Rightarrow> token list \<Rightarrow> (parse_state \<times> frame list) option" where
  "parse_run cfg [] = Some cfg"
| "parse_run cfg (t # ts) =
     (case parse_step cfg t of None \<Rightarrow> None | Some cfg' \<Rightarrow> parse_run cfg' ts)"

definition parse_tokens :: "token list \<Rightarrow> json option" where
  "parse_tokens ts =
     (case parse_run (BeginValue, []) ts of
        Some (EndTop v, _) \<Rightarrow> Some v
      | _ \<Rightarrow> None)"

text \<open>The value of a JSON text; \<open>None\<close> is a \<open>SyntaxError\<close>.\<close>

definition json_parse :: "string \<Rightarrow> json option" where
  "json_parse s = (case json_lex s of None \<Rightarrow> None | Some ts \<Rightarrow> parse_tokens ts)"

subsection \<open>Decoding into \<open>GeminiResponse\<close>\<close>

text \<open>
  \<open>foldName\<close>: the key a field name is compared by when no field has the key's exact
  name.  ASCII letters are made upper case; the two runes above ASCII whose case orbit
  holds an ASCII letter, U+017F (long s) and U+212A (Kelvin sign), become \<open>S\<close> and \<open>K\<close>.
  Every other rune above ASCII folds to a rune above ASCII, which no field name of the
  program contains; the model keeps its bytes.
\<close>

function foldName :: "string \<Rightarrow> string" where
  "foldName [] = []"
| "foldName (c # s) =
     (if byte c < RuneSelf
      then (if 0x61 \<le> byte c \<and> byte c \<le> 0x7A then char_of (byte c - 0x20) else c) # foldName s
      else (case DecodeRuneInString (c # s) of
              (r, n) \<Rightarrow>
                (if r = 0x17F then ''S'' else if r = 0x212A then ''K'' else take n (c # s))
                @ foldName (drop n (c # s))))"
  by pat_completeness auto
termination
  apply (relation "measure length")
    apply simp_all
  subgoal for c s x y
    using DecodeRuneInString_size_pos [of "c # s"] by (drule_tac sym) simp
  done

text \<open>The fields of the two structs, found by the exact key first and by the folded key
  otherwise.\<close>

datatype item_field = FieldID | FieldOriginal | FieldTranslation

definition item_field_of :: "string \<Rightarrow> item_field option" where
  "item_field_of key =
     (if key = ''id'' then Some FieldID
      else if key = ''text'' then Some FieldOriginal
      else if key = ''translation'' then Some FieldTranslation
      else if foldName key = ''ID'' then Some FieldID
      else if foldName key = ''TEXT'' then Some FieldOriginal
      else if foldName key = ''TRANSLATION'' then Some FieldTranslation
      else None)"

definition is_results_key :: "string \<Rightarrow> bool" where
  "is_results_key key \<longleftrightarrow> key = ''results'' \<or> foldName key = ''RESULTS''"

text \<open>
  A value for a field of type string: a JSON string is stored, \<open>null\<close> leaves the field
  as it is, anything else is an \<open>UnmarshalTypeError\<close> (the flag is \<open>False\<close>) and leaves the
  field as it is.  \<open>Unmarshal\<close> goes on after such an error and reports the first one at
  the end.
\<close>

definition decode_string :: "json \<Rightarrow> string \<Rightarrow> string \<times> bool" where
  "decode_string v old =
     (case v of JString s \<Rightarrow> (s, True) | JNull \<Rightarrow> (old, True) | _ \<Rightarrow> (old, False))"

definition zero_item :: TranslationItem where
  "zero_item = \<lparr>ID = [], Original = [], Translation = []\<rparr>"

text \<open>The members of an object, in order, into a \<open>TranslationItem\<close>; keys that name no
  field are skipped.\<close>

fun decode_members :: "(string \<times> json) list \<Rightarrow> TranslationItem \<Rightarrow> TranslationItem \<times> bool" where
  "decode_members [] it = (it, True)"
| "decode_members ((k, v) # ms) it =
     (case item_field_of k of
        None \<Rightarrow> decode_members ms it
      | Some FieldID \<Rightarrow>
          (case decode_string v (ID it) of
             (s, ok) \<Rightarrow> (case decode_members ms (it\<lparr>ID := s\<rparr>) of (it', ok') \<Rightarrow> (it', ok \<and> ok')))
      | Some FieldOriginal \<Rightarrow>
          (case decode_string v (Original it) of
             (s, ok) \<Rightarrow> (case decode_members ms (it\<lparr>Original := s\<rparr>) of (it', ok') \<Rightarrow> (it', ok \<and> ok')))
      | Some FieldTranslation \<Rightarrow>
          (case decode_string v (Translation it) of
             (s, ok) \<Rightarrow>
               (case decode_members ms (it\<lparr>Translation := s\<rparr>) of (it', ok') \<Rightarrow> (it', ok \<and> ok'))))"

definition decode_item :: "json \<Rightarrow> TranslationItem \<Rightarrow> TranslationItem \<times> bool" where
  "decode_item v old =
     (case v of
        JObject ms \<Rightarrow> decode_members ms old
      | JNull \<Rightarrow> (old, True)
      | _ \<Rightarrow> (old, False))"

text \<open>
  The slice \<open>Results\<close> while it is decoded: the elements of the slice, the elements of
  its backing array behind its length (left there by an earlier, longer array for the
  same field), and whether it is nil.
\<close>

record results_slice =
  elems :: "TranslationItem list"
  spare :: "TranslationItem list"
  is_nil :: bool

definition nil_slice :: results_slice where
  "nil_slice = \<lparr>elems = [], spare = [], is_nil = True\<rparr>"

text \<open>
  The elements of a JSON array into the slice: element \<open>i\<close> is decoded into what the
  backing array holds at \<open>i\<close> (the zero value behind its end).  The result is the new
  elements, the rest of the backing array, and the flag.
\<close>

fun decode_elements ::
  "json list \<Rightarrow> TranslationItem list \<Rightarrow> TranslationItem list \<times> TranslationItem list \<times> bool" where
  "decode_elements [] backing = ([], backing, True)"
| "decode_elements (v # vs) backing =
     (case decode_item v (case backing of [] \<Rightarrow> zero_item | old # _ \<Rightarrow> old) of
        (x, ok) \<Rightarrow>
          (case decode_elements vs (tl backing) of
             (xs, rest, ok') \<Rightarrow> (x # xs, rest, ok \<and> ok')))"

text \<open>A value for the field \<open>Results\<close>: an array (an empty one gives a new empty slice),
  \<open>null\<close> (the slice becomes nil), or a type error.\<close>

definition decode_results :: "json \<Rightarrow> results_slice \<Rightarrow> results_slice \<times> bool" where
  "decode_results v sl =
     (case v of
        JArray vs \<Rightarrow>
          if vs = [] then (\<lparr>elems = [], spare = [], is_nil = False\<rparr>, True)
          else (case decode_elements vs (elems sl @ spare sl) of
                  (xs, rest, ok) \<Rightarrow> (\<lparr>elems = xs, spare = rest, is_nil = False\<rparr>, ok))
      | JNull \<Rightarrow> (nil_slice, True)
      | _ \<Rightarrow> (sl, False))"

fun decode_response_members :: "(string \<times> json) list \<Rightarrow> results_slice \<Rightarrow> results_slice \<times> bool" where
  "decode_response_members [] sl = (sl, True)"
| "decode_response_members ((k, v) # ms) sl =
     (if is_results_key k
      then (case decode_results v sl of
              (sl', ok) \<Rightarrow>
                (case decode_response_members ms sl' of (sl'', ok') \<Rightarrow> (sl'', ok \<and> ok')))
      else decode_response_members ms sl)"

text \<open>\<open>GeminiResponse\<close>; \<open>None\<close> is the nil slice.\<close>

record GeminiResponse =
  Results :: "TranslationItem list option"

datatype json_error = SyntaxError | UnmarshalTypeError

text \<open>The top-level value into a zero \<open>GeminiResponse\<close>: an object, \<open>null\<close> (nothing is
  stored), or a type error.\<close>

definition decode_response :: "json \<Rightarrow> json_error + GeminiResponse" where
  "decode_response v =
     (case v of
        JObject ms \<Rightarrow>
          (case decode_response_members ms nil_slice of
             (sl, ok) \<Rightarrow>
               if ok then Inr \<lparr>Results = (if is_nil sl then None else Some (elems sl))\<rparr>
               else Inl UnmarshalTypeError)
      | JNull \<Rightarrow> Inr \<lparr>Results = None\<rparr>
      | _ \<Rightarrow> Inl UnmarshalTypeError)"

text \<open>\<open>json.Unmarshal([]byte(s), &finalResp)\<close> for a zero \<open>finalResp\<close>.\<close>

definition Unmarshal :: "string \<Rightarrow> json_error + GeminiResponse" where
  "Unmarshal s = (case json_parse s of None \<Rightarrow> Inl SyntaxError | Some v \<Rightarrow> decode_response v)"






section \<open>The extractor\<close>

text \<open>\<open>strings.Index\<close> and \<open>strings.LastIndex\<close>: the index of the first and of the last
  occurrence of \<open>sub\<close>, or -1.\<close>

fun Index :: "string \<Rightarrow> string \<Rightarrow> int" where
  "Index [] sub = (if sub = [] then 0 else - 1)"
| "Index (c # s) sub =
     (if HasPrefix (c # s) sub then 0
      else (let i = Index s sub in if i = - 1 then - 1 else i + 1))"

fun LastIndex :: "string \<Rightarrow> string \<Rightarrow> int" where
  "LastIndex [] sub = (if sub = [] then 0 else - 1)"
| "LastIndex (c # s) sub =
     (let i = LastIndex s sub in
      if i \<noteq> - 1 then i + 1 else if HasPrefix (c # s) sub then 0 else - 1)"

definition sanitizeJSON :: "string \<Rightarrow> string" where
  "sanitizeJSON input0 =
     (let input1 = TrimSpace input0;
          input2 =
            (if HasPrefix input1 ''```''
             then TrimSpace (TrimSuffix (TrimPrefix (TrimPrefix input1 ''```json'') ''```'') ''```'')
             else input1);
          start = Index input2 ''{'';
          end = LastIndex input2 ''}''
      in if start \<noteq> - 1 \<and> end \<noteq> - 1 \<and> end > start
         then take (nat (end + 1 - start)) (drop (nat start) input2)
         else input2)"

text \<open>
  The extraction step of \<open>translateWithGemini\<close>: the text of the model is sanitized and
  decoded; an error of the decoder is returned wrapped, with the sanitized text.
\<close>

datatype extraction_error = ExtractionError json_error string

definition extract_items :: "string \<Rightarrow> extraction_error + TranslationItem list option" where
  "extract_items actualJSON =
     (let cleanJSON = sanitizeJSON actualJSON in
      case Unmarshal cleanJSON of
        Inl err \<Rightarrow> Inl (ExtractionError err cleanJSON)
      | Inr finalResp \<Rightarrow> Inr (Results finalResp))"

section \<open>The envelope of the remote response\<close>

text \<open>
  \<open>rawMap\<close> is the body decoded into \<open>map[string]interface{}\<close>: objects are maps (a
  list of members here, looked up by key), arrays are slices.  A failed type assertion
  and an index out of range are run-time panics.
\<close>

datatype go_panic = InterfaceConversion | IndexOutOfRange

datatype unwrap_result =
    Panics go_panic
  | RemoteCallError
  | Unwrapped string

text \<open>The value a map holds for a key: the member written last, nil when there is none.\<close>

definition lookup :: "(string \<times> json) list \<Rightarrow> string \<Rightarrow> json" where
  "lookup ms key = (case map_of (rev ms) key of None \<Rightarrow> JNull | Some v \<Rightarrow> v)"

definition unwrap_envelope :: "(string \<times> json) list \<Rightarrow> unwrap_result" where
  "unwrap_envelope rawMap =
     (case lookup rawMap ''candidates'' of
        JArray candidates \<Rightarrow>
          (case candidates of
             [] \<Rightarrow> RemoteCallError
           | c0 # _ \<Rightarrow>
               (case c0 of
                  JObject candidate \<Rightarrow>
                    (case lookup candidate ''content'' of
                       JObject content \<Rightarrow>
                         (case lookup content ''parts'' of
                            JArray parts \<Rightarrow>
                              (case parts of
                                 [] \<Rightarrow> Panics IndexOutOfRange
                               | p0 # _ \<Rightarrow>
                                   (case p0 of
                                      JObject part \<Rightarrow>
                                        (case lookup part ''text'' of
                                           JString actualJSON \<Rightarrow> Unwrapped actualJSON
                                         | _ \<Rightarrow> Panics InterfaceConversion)
                                    | _ \<Rightarrow> Panics InterfaceConversion))
                          | _ \<Rightarrow> Panics InterfaceConversion)
                     | _ \<Rightarrow> Panics InterfaceConversion)
                | _ \<Rightarrow> Panics InterfaceConversion))
      | _ \<Rightarrow> RemoteCallError)"

section \<open>Serialization: \<open>json.Marshal\<close> of a \<open>GeminiResponse\<close>\<close>

definition hex_digit :: "nat \<Rightarrow> char" where
  "hex_digit d = ''0123456789abcdef'' ! d"

text \<open>\<open>htmlSafeSet\<close>: the ASCII bytes the encoder copies as they are (it escapes HTML).\<close>

definition htmlSafe :: "char \<Rightarrow> bool" where
  "htmlSafe c \<longleftrightarrow>
     0x20 \<le> byte c \<and> byte c < 0x80 \<and> c \<noteq> CHR 0x22 \<and> c \<noteq> CHR ''&'' \<and> c \<noteq> CHR ''<''
     \<and> c \<noteq> CHR ''>'' \<and> c \<noteq> CHR 0x5C"

text \<open>An ASCII byte as \<open>appendString\<close> writes it.\<close>

definition escape_ascii :: "char \<Rightarrow> string" where
  "escape_ascii c =
     (if htmlSafe c then [c]
      else if c = CHR 0x5C \<or> c = CHR 0x22 then [CHR 0x5C, c]
      else if c = CHR 0x08 then [CHR 0x5C, CHR ''b'']
      else if c = CHR 0x0C then [CHR 0x5C, CHR ''f'']
      else if c = CHR 0x0A then [CHR 0x5C, CHR ''n'']
      else if c = CHR 0x0D then [CHR 0x5C, CHR ''r'']
      else if c = CHR 0x09 then [CHR 0x5C, CHR ''t'']
      else [CHR 0x5C, CHR ''u'', CHR ''0'', CHR ''0'', hex_digit (byte c div 16),
            hex_digit (byte c mod 16)])"

text \<open>
  The bytes of a string between the quotes, as \<open>appendString\<close> writes them: a byte that
  is no valid UTF-8 becomes \<open>\\ufffd\<close>, U+2028 and U+2029 are escaped, every other rune
  above ASCII is copied.
\<close>

function escape_string :: "string \<Rightarrow> string" where
  "escape_string [] = []"
| "escape_string (c # s) =
     (if byte c < RuneSelf then escape_ascii c @ escape_string s
      else (case DecodeRuneInString (c # s) of
              (r, n) \<Rightarrow>
                (if r = RuneError \<and> n = 1 then [CHR 0x5C, CHR ''u'', CHR ''f'', CHR ''f'', CHR ''f'', CHR ''d'']
                 else if r = 0x2028 \<or> r = 0x2029
                   then [CHR 0x5C, CHR ''u'', CHR ''2'', CHR ''0'', CHR ''2'', hex_digit (r mod 16)]
                 else take n (c # s))
                @ escape_string (drop n (c # s))))"
  by pat_completeness auto
termination
  apply (relation "measure length")
    apply simp_all
  subgoal for c s x y
    using DecodeRuneInString_size_pos [of "c # s"] by (drule_tac sym) simp
  done

definition marshal_string :: "string \<Rightarrow> string" where
  "marshal_string s = [CHR 0x22] @ escape_string s @ [CHR 0x22]"

text \<open>A \<open>TranslationItem\<close>: the keys \<open>id\<close>, \<open>text\<close> and, unless it is empty
  (\<open>omitempty\<close>), \<open>translation\<close>.\<close>

definition marshal_item :: "TranslationItem \<Rightarrow> string" where
  \<open>marshal_item it =
     ''{"id":'' @ marshal_string (ID it) @ '',"text":'' @ marshal_string (Original it)
     @ (if Translation it = [] then [] else '',"translation":'' @ marshal_string (Translation it))
     @ ''}''\<close>

fun marshal_items :: "TranslationItem list \<Rightarrow> string" where
  "marshal_items [] = []"
| "marshal_items [x] = marshal_item x"
| "marshal_items (x # y # ys) = marshal_item x @ '','' @ marshal_items (y # ys)"

text \<open>A \<open>GeminiResponse\<close>: the nil slice is written \<open>null\<close>.\<close>

definition Marshal :: "GeminiResponse \<Rightarrow> string" where
  \<open>Marshal resp =
     ''{"results":''
     @ (case Results resp of None \<Rightarrow> ''null'' | Some xs \<Rightarrow> ''['' @ marshal_items xs @ '']'')
     @ ''}''\<close>

section \<open>Reading back a serialized response: definitions\<close>

text \<open>The rune \<open>utf8.EncodeRune\<close> writes for \<open>r\<close>: U+FFFD for a surrogate and for a value
  above U+10FFFF.\<close>

definition norm_rune :: "nat \<Rightarrow> nat" where
  "norm_rune r = (if 0x10FFFF < r \<or> (0xD800 \<le> r \<and> r \<le> 0xDFFF) then RuneError else r)"

text \<open>Strings built from ASCII bytes and encoded runes: what \<open>unquote\<close> returns.\<close>

inductive wf_string :: "string \<Rightarrow> bool" where
  wf_Nil: "wf_string []"
| wf_ascii: "wf_string t \<Longrightarrow> byte c < 0x80 \<Longrightarrow> wf_string (c # t)"
| wf_rune: "wf_string t \<Longrightarrow> 0x80 \<le> r \<Longrightarrow> wf_string (EncodeRune r @ t)"

text \<open>The byte of an escape of two bytes, as \<open>unquote\<close> resolves it.\<close>

definition simple_escape :: "char \<Rightarrow> char option" where
  "simple_escape e =
     (if e = CHR 0x22 \<or> e = CHR 0x5C \<or> e = CHR ''/'' \<or> e = CHR 0x27 then Some e
      else if e = CHR ''b'' then Some (CHR 0x08)
      else if e = CHR ''f'' then Some (CHR 0x0C)
      else if e = CHR ''n'' then Some (CHR 0x0A)
      else if e = CHR ''r'' then Some (CHR 0x0D)
      else if e = CHR ''t'' then Some (CHR 0x09)
      else None)"

text \<open>What \<open>escape_string\<close> writes for the encoding of a rune above ASCII.\<close>

definition escape_rune :: "nat \<Rightarrow> string" where
  "escape_rune r =
     (if norm_rune r = 0x2028 \<or> norm_rune r = 0x2029
      then [CHR 0x5C, CHR ''u'', CHR ''2'', CHR ''0'', CHR ''2'', hex_digit (norm_rune r mod 16)]
      else EncodeRune r)"

text \<open>The tokens and the value of the text \<open>Marshal\<close> writes, and the strings for which
  they are read back: every field is well formed.\<close>

definition item_tokens :: "TranslationItem \<Rightarrow> token list" where
  "item_tokens it =
     [TBeginObject, TString ''id'', TColon, TString (escape_string (ID it)), TComma,
      TString ''text'', TColon, TString (escape_string (Original it))]
     @ (if Translation it = [] then []
        else [TComma, TString ''translation'', TColon, TString (escape_string (Translation it))])
     @ [TEndObject]"

fun items_tokens :: "TranslationItem list \<Rightarrow> token list" where
  "items_tokens [] = []"
| "items_tokens [x] = item_tokens x"
| "items_tokens (x # y # ys) = item_tokens x @ [TComma] @ items_tokens (y # ys)"

definition response_tokens :: "TranslationItem list option \<Rightarrow> token list" where
  "response_tokens rs =
     [TBeginObject, TString ''results'', TColon]
     @ (case rs of None \<Rightarrow> [TNull] | Some xs \<Rightarrow> [TBeginArray] @ items_tokens xs @ [TEndArray])
     @ [TEndObject]"

definition wf_item :: "TranslationItem \<Rightarrow> bool" where
  "wf_item it \<longleftrightarrow> wf_string (ID it) \<and> wf_string (Original it) \<and> wf_string (Translation it)"

definition lexes :: "string \<Rightarrow> token list \<Rightarrow> bool" where
  "lexes s ts \<longleftrightarrow> lex_run InValue s = Some (ts, InValue)"

definition item_json :: "TranslationItem \<Rightarrow> json" where
  "item_json it =
     JObject ([(''id'', JString (ID it)), (''text'', JString (Original it))]
              @ (if Translation it = [] then [] else [(''translation'', JString (Translation it))]))"

definition response_json :: "TranslationItem list option \<Rightarrow> json" where
  "response_json rs =
     JObject [(''results'', case rs of None \<Rightarrow> JNull | Some xs \<Rightarrow> JArray (map item_json xs))]"

text \<open>Values whose strings are well formed, and the configurations of the parser that
  hold such values only.\<close>

inductive wf_json :: "json \<Rightarrow> bool" where
  wf_JNull: "wf_json JNull"
| wf_JBool: "wf_json (JBool b)"
| wf_JNumber: "wf_json (JNumber n)"
| wf_JString: "wf_string s \<Longrightarrow> wf_json (JString s)"
| wf_JArray: "\<forall>v \<in> set vs. wf_json v \<Longrightarrow> wf_json (JArray vs)"
| wf_JObject: "\<forall>m \<in> set ms. wf_json (snd m) \<Longrightarrow> wf_json (JObject ms)"

fun wf_frame :: "frame \<Rightarrow> bool" where
  "wf_frame (ArrayFrame es) \<longleftrightarrow> (\<forall>v \<in> set es. wf_json v)"
| "wf_frame (ObjectFrame ms) \<longleftrightarrow> (\<forall>m \<in> set ms. wf_json (snd m))"
| "wf_frame (ObjectValueFrame ms k) \<longleftrightarrow> (\<forall>m \<in> set ms. wf_json (snd m))"

fun wf_cfg :: "parse_state \<times> frame list \<Rightarrow> bool" where
  "wf_cfg (ps, stack) \<longleftrightarrow>
     (\<forall>f \<in> set stack. wf_frame f) \<and> (case ps of EndTop v \<Rightarrow> wf_json v | _ \<Rightarrow> True)"

text \<open>A slice whose elements, also those behind its length, are well formed.\<close>

definition wf_slice :: "results_slice \<Rightarrow> bool" where
  "wf_slice sl \<longleftrightarrow> (\<forall>x \<in> set (elems sl). wf_item x) \<and> (\<forall>x \<in> set (spare sl). wf_item x)"

section \<open>Properties of the work list file\<close>

lemma removeURL_loop_eq:
  "removeURL_loop lines u acc = acc @ filter (\<lambda>l. l \<noteq> [] \<and> l \<noteq> u) (map TrimSpace lines)"
  by (induction lines arbitrary: acc) (auto simp: Let_def)

lemma Split_not_Nil [simp]: "Split s c \<noteq> []"
  by (induction s) (auto split: list.splits)

lemma Split_no_sep: "p \<in> set (Split s c) \<Longrightarrow> c \<notin> set p"
  by (induction s arbitrary: p) (auto split: list.splits if_splits)

lemma Split_none: "c \<notin> set x \<Longrightarrow> Split x c = [x]"
  by (induction x) auto

lemma Split_append_sep: "c \<notin> set x \<Longrightarrow> Split (x @ c # rest) c = x # Split rest c"
  by (induction x) auto

lemma Split_Join:
  "\<forall>x \<in> set xs. c \<notin> set x \<Longrightarrow> xs \<noteq> [] \<Longrightarrow> Split (Join xs [c] @ [c]) c = xs @ [[]]"
proof (induction xs "[c]" rule: Join.induct)
  case 1
  then show ?case by simp
next
  case (2 x)
  then show ?case by (simp add: Split_append_sep)
next
  case (3 x y ys)
  then show ?case by (simp add: Split_append_sep)
qed

lemma set_TrimLeftSpace: "set (TrimLeftSpace s) \<subseteq> set s"
proof (induction s rule: TrimLeftSpace.induct)
  case 1
  then show ?case by simp
next
  case (2 c s)
  obtain r n where d: "DecodeRuneInString (c # s) = (r, n)" by force
  show ?case
  proof (cases "IsSpace r")
    case True
    with 2 [OF d [symmetric] True] d set_drop_subset [of n "c # s"] show ?thesis
      by auto
  next
    case False
    with d show ?thesis by simp
  qed
qed

lemma set_TrimSpace: "set (TrimSpace s) \<subseteq> set s"
proof -
  have "set (TrimRightSpace t) \<subseteq> set t" for t
    by (auto simp: TrimRightSpace_def Let_def dest: in_set_takeD)
  with set_TrimLeftSpace [of s] show ?thesis
    unfolding TrimSpace_def by blast
qed

lemma kept_lines_no_nl: "l \<in> set (kept_lines data u) \<Longrightarrow> CHR 0x0A \<notin> set l"
  using Split_no_sep set_TrimSpace unfolding kept_lines_def by fastforce

lemma removeURLFromFile_Inr:
  assumes "removeURLFromFile fs p u = Inr fs'"
  shows "\<exists>data. ReadFile fs p = Inr data \<and>
           ReadFile fs' p = Inr (Join (kept_lines data u) [CHR 0x0A] @ [CHR 0x0A])"
  using assms
  by (auto simp: removeURLFromFile_def ReadFile_def WriteFile_def removeURL_loop_eq kept_lines_def Let_def
           split: option.splits sum.splits if_splits)

lemma nonblank_lines_rewritten:
  "filter (\<lambda>l. l \<noteq> []) (Split (Join (kept_lines data u) [CHR 0x0A] @ [CHR 0x0A]) (CHR 0x0A)) = kept_lines data u"
proof (cases "kept_lines data u = []")
  case True
  then show ?thesis by simp
next
  case False
  have "filter (\<lambda>l. l \<noteq> []) (kept_lines data u) = kept_lines data u"
    by (auto simp: kept_lines_def intro: filter_cong)
  with False show ?thesis
    using Split_Join [of "kept_lines data u" "CHR 0x0A"] kept_lines_no_nl [of _ data u]
    by auto
qed

lemma Join_concat:
  "xs \<noteq> [] \<Longrightarrow> Join xs sep @ sep = concat (map (\<lambda>l. l @ sep) xs)"
  by (induction xs sep rule: Join.induct) auto


lemma TrimSpace_examples:
  "TrimSpace ''# c'' = ''# c''" "TrimSpace ''a'' = ''a''" "TrimSpace '' a '' = ''a''"
  "TrimSpace [] = []" "TrimSpace ''b'' = ''b''"
  by (simp_all add: TrimSpace_def TrimRightSpace_def DecodeRuneInString_def
        DecodeLastRuneInString_def lastIndexNotSpace.simps IsSpace_def RuneSelf_def Let_def)

lemma Split_example:
  "Split ''# c\<newline>a\<newline> a \<newline>\<newline>b\<newline>'' (CHR 0x0A)
     = [''# c'', ''a'', '' a '', [], ''b'', []]"
  by simp

lemma file_after_example:
  "file_after worklist_example ''projects.txt'' ''b'' = Inr ''# c\<newline>a\<newline>a\<newline>''"
  by (simp add: file_after_def worklist_example_def removeURLFromFile_def ReadFile_def
        WriteFile_def removeURL_loop_eq Split_example TrimSpace_examples del: Split.simps)

lemma claimed_rewrite_example:
  "claimed_rewrite ''# c\<newline>a\<newline> a \<newline>\<newline>b\<newline>'' ''b'' = ''a\<newline>''"
  by (simp add: claimed_rewrite_def Split_example TrimSpace_examples HasPrefix_def del: Split.simps)

subsection \<open>Trimming on ASCII text\<close>

lemma ascii_space_byte:
  "ascii_space c \<longleftrightarrow>
     byte c = 0x09 \<or> byte c = 0x0A \<or> byte c = 0x0B \<or> byte c = 0x0C \<or> byte c = 0x0D \<or> byte c = 0x20"
proof -
  have "(c = d) = (byte c = byte d)" for d
    by simp
  from this [of "CHR 0x09"] this [of "CHR 0x0A"] this [of "CHR 0x0B"] this [of "CHR 0x0C"]
    this [of "CHR 0x0D"] this [of "CHR '' ''"]
  show ?thesis unfolding ascii_space_def by simp
qed

lemma IsSpace_ascii: "byte c < 0x80 \<Longrightarrow> IsSpace (byte c) \<longleftrightarrow> ascii_space c"
  unfolding ascii_space_byte IsSpace_def by auto

lemma DecodeRuneInString_ascii: "byte c < 0x80 \<Longrightarrow> DecodeRuneInString (c # t) = (byte c, 1)"
  by (simp add: DecodeRuneInString_def RuneSelf_def)

lemma TrimLeftSpace_ascii: "is_ascii s \<Longrightarrow> TrimLeftSpace s = dropWhile ascii_space s"
  by (induction s) (simp_all add: is_ascii_def DecodeRuneInString_ascii IsSpace_ascii)

lemma DecodeLastRuneInString_ascii:
  "byte d < 0x80 \<Longrightarrow> DecodeLastRuneInString (m @ [d]) = (byte d, 1)"
  by (simp add: DecodeLastRuneInString_def RuneSelf_def Let_def)

lemma lastIndexNotSpace_ascii:
  "is_ascii s \<Longrightarrow> lastIndexNotSpace (s @ t) (length s) = int (length (dropWhile ascii_space (rev s))) - 1"
proof (induction s arbitrary: t rule: rev_induct)
  case Nil
  then show ?case by (simp add: lastIndexNotSpace.simps)
next
  case (snoc d s)
  then have a: "byte d < 0x80" and s: "is_ascii s" by (simp_all add: is_ascii_def)
  have l: "DecodeLastRuneInString (s @ [d]) = (byte d, 1)"
    using a by (rule DecodeLastRuneInString_ascii)
  from snoc.IH [OF s, of "d # t"] have
    ih: "lastIndexNotSpace (s @ d # t) (length s) = int (length (dropWhile ascii_space (rev s))) - 1"
    by simp
  show ?case
    using l ih a by (subst lastIndexNotSpace.simps) (simp add: IsSpace_ascii)
qed

lemma rev_dropWhile_rev: "rev (dropWhile P (rev t)) = take (length (dropWhile P (rev t))) t"
proof -
  have "t = rev (dropWhile P (rev t)) @ rev (takeWhile P (rev t))"
    by (metis rev_append rev_rev_ident takeWhile_dropWhile_id)
  then have "take (length (rev (dropWhile P (rev t)))) t = rev (dropWhile P (rev t))"
    by (metis append_eq_conv_conj)
  then show ?thesis by simp
qed

lemma TrimRightSpace_ascii:
  assumes "is_ascii t"
  shows "TrimRightSpace t = rev (dropWhile ascii_space (rev t))"
proof -
  let ?k = "length (dropWhile ascii_space (rev t))"
  have i: "lastIndexNotSpace t (length t) = int ?k - 1"
    using lastIndexNotSpace_ascii [OF assms, of "[]"] by simp
  have k: "?k \<le> length t"
    using length_dropWhile_le [of ascii_space "rev t"] by simp
  have "\<not> (int ?k - 1 \<ge> 0 \<and> byte (t ! nat (int ?k - 1)) \<ge> RuneSelf)"
  proof
    assume h: "int ?k - 1 \<ge> 0 \<and> byte (t ! nat (int ?k - 1)) \<ge> RuneSelf"
    then have "nat (int ?k - 1) < length t" using k by linarith
    with assms have "byte (t ! nat (int ?k - 1)) < 0x80"
      by (simp add: is_ascii_def list_all_length)
    with h show False by (simp add: RuneSelf_def)
  qed
  then have "TrimRightSpace t = take (nat (int ?k - 1 + 1)) t"
    unfolding TrimRightSpace_def i Let_def by (simp only: if_False)
  also have "\<dots> = take ?k t" by simp
  also have "\<dots> = rev (dropWhile ascii_space (rev t))"
    by (rule rev_dropWhile_rev [symmetric])
  finally show ?thesis .
qed

lemma is_ascii_dropWhile: "is_ascii s \<Longrightarrow> is_ascii (dropWhile P s)"
  by (auto simp: is_ascii_def list_all_iff dest: set_dropWhileD)

lemma TrimSpace_ascii: "is_ascii s \<Longrightarrow> TrimSpace s = trim_ascii s"
  by (simp add: TrimSpace_def trim_ascii_def TrimLeftSpace_ascii TrimRightSpace_ascii
      is_ascii_dropWhile)

lemma Split_subset: "p \<in> set (Split s c) \<Longrightarrow> x \<in> set p \<Longrightarrow> x \<in> set s"
proof (induction s arbitrary: p)
  case Nil
  then show ?case by simp
next
  case (Cons a s)
  obtain q qs where q: "Split s c = q # qs"
    by (cases "Split s c") simp_all
  show ?case
  proof (cases "a = c")
    case True
    with Cons.prems have "p = [] \<or> p \<in> set (Split s c)" by simp
    with Cons.prems(2) Cons.IH show ?thesis by auto
  next
    case False
    with Cons.prems(1) q have "p = a # q \<or> p \<in> set qs" by simp
    then show ?thesis
    proof
      assume "p = a # q"
      with Cons.prems(2) have "x = a \<or> x \<in> set q" by simp
      with Cons.IH [of q] q show ?thesis by auto
    next
      assume "p \<in> set qs"
      with Cons.IH [of p] q Cons.prems(2) show ?thesis by simp
    qed
  qed
qed

lemma Split_ascii: "is_ascii s \<Longrightarrow> p \<in> set (Split s c) \<Longrightarrow> is_ascii p"
  using Split_subset [of p s c] by (simp add: is_ascii_def list_all_iff)

lemma map_TrimSpace_ascii:
  assumes "is_ascii data"
  shows "map TrimSpace (Split data c) = map trim_ascii (Split data c)"
proof (rule map_cong [OF refl])
  fix p assume "p \<in> set (Split data c)"
  from TrimSpace_ascii [OF Split_ascii [OF assms this]] show "TrimSpace p = trim_ascii p" .
qed

subsection \<open>Removal of padded lines\<close>

lemma trim_ascii_examples:
  "trim_ascii ''# c'' = ''# c''" "trim_ascii ''a'' = ''a''" "trim_ascii '' a '' = ''a''"
  "trim_ascii [] = []" "trim_ascii ''b'' = ''b''"
  by (simp_all add: trim_ascii_def ascii_space_def)

lemma is_ascii_example: "is_ascii ''# c\<newline>a\<newline> a \<newline>\<newline>b\<newline>''"
  by (simp add: is_ascii_def)

lemma unit_not_left:
  assumes "filter (\<lambda>l. l \<noteq> []) ls = filter (\<lambda>l. l \<noteq> [] \<and> l \<noteq> u) ms" and "u \<noteq> []"
  shows "u \<notin> set ls"
proof
  assume "u \<in> set ls"
  with assms(2) have "u \<in> set (filter (\<lambda>l. l \<noteq> []) ls)" by simp
  with assms(1) show False by simp
qed

lemma Split_example_after:
  "Split ''# c\<newline>b\<newline>'' (CHR 0x0A) = [''# c'', ''b'', []]"
  by simp

lemma Split_unicode:
  "Split [CHR 0xC2, CHR 0xA0, CHR ''a'', CHR 0xE3, CHR 0x80, CHR 0x80, CHR 0x0A, CHR ''b'', CHR 0x0A]
     (CHR 0x0A) = [[CHR 0xC2, CHR 0xA0, CHR ''a'', CHR 0xE3, CHR 0x80, CHR 0x80], ''b'', []]"
  by simp

text \<open>
  C10.  \<open>removeURLFromFile\<close> compares the trimmed lines with the unit.  On the work list
  \<open># c\<close>, \<open>a\<close>, \<open>a\<close> between spaces, a blank line, \<open>b\<close> the removal of \<open>a\<close> leaves \<open># c\<close> and
  \<open>b\<close>: the padded line is removed too, and so is a line where \<open>a\<close> stands between a
  no-break space and an ideographic space.  After every successful call the lines of the
  file that are not blank are exactly the trimmed lines of the old content that are
  neither blank nor equal to the unit, in their original order; on ASCII content
  trimming is dropping the white space bytes at both ends of the line.  Every occurrence
  of the unit is gone.
\<close>

theorem removeURLFromFile_removes_matching_lines:
  "file_after worklist_example ''projects.txt'' ''a'' = Inr ''# c\<newline>b\<newline>''
   \<and> file_after worklist_unicode ''projects.txt'' ''a'' = Inr ''b\<newline>''
   \<and> (removeURLFromFile fs filePath urlToRemove = Inr fs' \<longrightarrow>
        (\<exists>data data'.
           ReadFile fs filePath = Inr data \<and> ReadFile fs' filePath = Inr data' \<and>
           filter (\<lambda>l. l \<noteq> []) (Split data' (CHR 0x0A))
             = filter (\<lambda>l. l \<noteq> [] \<and> l \<noteq> urlToRemove) (map TrimSpace (Split data (CHR 0x0A))) \<and>
           (is_ascii data \<longrightarrow>
              filter (\<lambda>l. l \<noteq> []) (Split data' (CHR 0x0A))
                = filter (\<lambda>l. l \<noteq> [] \<and> l \<noteq> urlToRemove) (map trim_ascii (Split data (CHR 0x0A)))) \<and>
           (urlToRemove \<noteq> [] \<longrightarrow> urlToRemove \<notin> set (Split data' (CHR 0x0A)))))"
proof (intro conjI impI)
  have t: "TrimSpace ''# c'' = ''# c''" "TrimSpace ''a'' = ''a''" "TrimSpace '' a '' = ''a''"
    "TrimSpace [] = []" "TrimSpace ''b'' = ''b''"
    by (simp_all add: TrimSpace_def TrimRightSpace_def DecodeRuneInString_def
        DecodeLastRuneInString_def lastIndexNotSpace.simps IsSpace_def RuneSelf_def Let_def)
  have tu: "TrimSpace [CHR 0xC2, CHR 0xA0, CHR ''a'', CHR 0xE3, CHR 0x80, CHR 0x80] = ''a''"
    by (simp add: TrimSpace_def TrimRightSpace_def DecodeRuneInString_def first_def
        DecodeLastRuneInString_def lastIndexNotSpace.simps scan_back.simps RuneStart_def
        IsSpace_def RuneSelf_def RuneError_def Let_def)
  show "file_after worklist_example ''projects.txt'' ''a'' = Inr ''# c\<newline>b\<newline>''"
    by (simp add: file_after_def worklist_example_def removeURLFromFile_def ReadFile_def
        WriteFile_def removeURL_loop_eq Split_example t del: Split.simps)
  show "file_after worklist_unicode ''projects.txt'' ''a'' = Inr ''b\<newline>''"
    by (simp add: file_after_def worklist_unicode_def removeURLFromFile_def ReadFile_def
        WriteFile_def removeURL_loop_eq Split_unicode t tu del: Split.simps)
next
  assume ok: "removeURLFromFile fs filePath urlToRemove = Inr fs'"
  from removeURLFromFile_Inr [OF ok] obtain data where
    r: "ReadFile fs filePath = Inr data" and
    w: "ReadFile fs' filePath = Inr (Join (kept_lines data urlToRemove) [CHR 0x0A] @ [CHR 0x0A])"
    by blast
  let ?data' = "Join (kept_lines data urlToRemove) [CHR 0x0A] @ [CHR 0x0A]"
  have 1: "filter (\<lambda>l. l \<noteq> []) (Split ?data' (CHR 0x0A))
             = filter (\<lambda>l. l \<noteq> [] \<and> l \<noteq> urlToRemove) (map TrimSpace (Split data (CHR 0x0A)))"
    unfolding nonblank_lines_rewritten by (simp add: kept_lines_def)
  have 2: "is_ascii data \<longrightarrow>
             filter (\<lambda>l. l \<noteq> []) (Split ?data' (CHR 0x0A))
               = filter (\<lambda>l. l \<noteq> [] \<and> l \<noteq> urlToRemove) (map trim_ascii (Split data (CHR 0x0A)))"
  proof
    assume a: "is_ascii data"
    show "filter (\<lambda>l. l \<noteq> []) (Split ?data' (CHR 0x0A))
               = filter (\<lambda>l. l \<noteq> [] \<and> l \<noteq> urlToRemove) (map trim_ascii (Split data (CHR 0x0A)))"
      unfolding 1 map_TrimSpace_ascii [OF a] ..
  qed
  have 3: "urlToRemove \<noteq> [] \<longrightarrow> urlToRemove \<notin> set (Split ?data' (CHR 0x0A))"
    using unit_not_left [OF 1] by simp
  from r w 1 2 3 show "\<exists>data data'.
           ReadFile fs filePath = Inr data \<and> ReadFile fs' filePath = Inr data' \<and>
           filter (\<lambda>l. l \<noteq> []) (Split data' (CHR 0x0A))
             = filter (\<lambda>l. l \<noteq> [] \<and> l \<noteq> urlToRemove) (map TrimSpace (Split data (CHR 0x0A))) \<and>
           (is_ascii data \<longrightarrow>
              filter (\<lambda>l. l \<noteq> []) (Split data' (CHR 0x0A))
                = filter (\<lambda>l. l \<noteq> [] \<and> l \<noteq> urlToRemove) (map trim_ascii (Split data (CHR 0x0A)))) \<and>
           (urlToRemove \<noteq> [] \<longrightarrow> urlToRemove \<notin> set (Split data' (CHR 0x0A)))"
    by blast
qed

theorem removeURLFromFile_removes_matching_lines_witness:
  "removeURLFromFile worklist_example ''projects.txt'' ''a''
     = Inr [''projects.txt'' \<mapsto> \<lparr>file_data = ''# c\<newline>b\<newline>'', read_only = False\<rparr>]
   \<and> ReadFile worklist_example ''projects.txt'' = Inr ''# c\<newline>a\<newline> a \<newline>\<newline>b\<newline>''
   \<and> is_ascii ''# c\<newline>a\<newline> a \<newline>\<newline>b\<newline>''
   \<and> file_after worklist_example ''projects.txt'' ''a'' = Inr ''# c\<newline>b\<newline>''
   \<and> filter (\<lambda>l. l \<noteq> []) (Split ''# c\<newline>b\<newline>'' (CHR 0x0A)) = [''# c'', ''b'']
   \<and> filter (\<lambda>l. l \<noteq> [] \<and> l \<noteq> ''a'')
        (map trim_ascii (Split ''# c\<newline>a\<newline> a \<newline>\<newline>b\<newline>'' (CHR 0x0A))) = [''# c'', ''b'']
   \<and> filter (\<lambda>l. l \<noteq> []) (Split ''# c\<newline>b\<newline>'' (CHR 0x0A))
       = filter (\<lambda>l. l \<noteq> [] \<and> l \<noteq> ''a'')
           (map trim_ascii (Split ''# c\<newline>a\<newline> a \<newline>\<newline>b\<newline>'' (CHR 0x0A)))
   \<and> ''a'' \<notin> set (Split ''# c\<newline>b\<newline>'' (CHR 0x0A))
   \<and> file_after worklist_unicode ''projects.txt'' ''a'' = Inr ''b\<newline>''"
proof -
  let ?fs' = "[''projects.txt'' \<mapsto> \<lparr>file_data = ''# c\<newline>b\<newline>'', read_only = False\<rparr>]"
  let ?old = "''# c\<newline>a\<newline> a \<newline>\<newline>b\<newline>''"
  let ?new = "''# c\<newline>b\<newline>''"
  have t: "TrimSpace ''# c'' = ''# c''" "TrimSpace ''a'' = ''a''" "TrimSpace '' a '' = ''a''"
    "TrimSpace [] = []" "TrimSpace ''b'' = ''b''"
    by (simp_all add: TrimSpace_def TrimRightSpace_def DecodeRuneInString_def
        DecodeLastRuneInString_def lastIndexNotSpace.simps IsSpace_def RuneSelf_def Let_def)
  have tu: "TrimSpace [CHR 0xC2, CHR 0xA0, CHR ''a'', CHR 0xE3, CHR 0x80, CHR 0x80] = ''a''"
    by (simp add: TrimSpace_def TrimRightSpace_def DecodeRuneInString_def first_def
        DecodeLastRuneInString_def lastIndexNotSpace.simps scan_back.simps RuneStart_def
        IsSpace_def RuneSelf_def RuneError_def Let_def)
  have x: "removeURLFromFile worklist_example ''projects.txt'' ''a'' = Inr ?fs'"
    by (simp add: worklist_example_def removeURLFromFile_def ReadFile_def
        WriteFile_def removeURL_loop_eq Split_example t del: Split.simps)
  have f: "file_after worklist_example ''projects.txt'' ''a'' = Inr ?new"
    by (simp add: file_after_def x ReadFile_def)
  have fu: "file_after worklist_unicode ''projects.txt'' ''a'' = Inr ''b\<newline>''"
    by (simp add: file_after_def worklist_unicode_def removeURLFromFile_def ReadFile_def
        WriteFile_def removeURL_loop_eq Split_unicode t tu del: Split.simps)
  have r: "ReadFile worklist_example ''projects.txt'' = Inr ?old"
    by (simp add: ReadFile_def worklist_example_def)
  have r': "ReadFile ?fs' ''projects.txt'' = Inr ?new"
    by (simp add: ReadFile_def)
  have e: "filter (\<lambda>l. l \<noteq> [] \<and> l \<noteq> ''a'') (map trim_ascii (Split ?old (CHR 0x0A))) = [''# c'', ''b'']"
    by (simp add: Split_example trim_ascii_examples del: Split.simps)
  have e': "filter (\<lambda>l. l \<noteq> []) (Split ?new (CHR 0x0A)) = [''# c'', ''b'']"
    by (simp add: Split_example_after del: Split.simps)
  from removeURLFromFile_removes_matching_lines
         [of worklist_example "''projects.txt''" "''a''" ?fs', THEN conjunct2, THEN conjunct2, THEN mp,
          OF x]
  obtain data data' where
    d: "ReadFile worklist_example ''projects.txt'' = Inr data" and
    d': "ReadFile ?fs' ''projects.txt'' = Inr data'" and
    t: "is_ascii data \<longrightarrow>
              filter (\<lambda>l. l \<noteq> []) (Split data' (CHR 0x0A))
                = filter (\<lambda>l. l \<noteq> [] \<and> l \<noteq> ''a'') (map trim_ascii (Split data (CHR 0x0A)))" and
    n: "''a'' \<noteq> [] \<longrightarrow> ''a'' \<notin> set (Split data' (CHR 0x0A))"
    by blast
  from d r have 1: "data = ?old" by simp
  from d' r' have 2: "data' = ?new" by simp
  from t is_ascii_example have 3: "filter (\<lambda>l. l \<noteq> []) (Split ?new (CHR 0x0A))
       = filter (\<lambda>l. l \<noteq> [] \<and> l \<noteq> ''a'') (map trim_ascii (Split ?old (CHR 0x0A)))"
    unfolding 1 2 by (rule mp)
  from n have 4: "''a'' \<notin> set (Split ?new (CHR 0x0A))"
    unfolding 2 by simp
  from x r is_ascii_example f e' e 3 4 fu
  show ?thesis by (intro conjI)
qed


text \<open>
  C4, as the claim states it, fails: on a work list with a comment line and a duplicated
  unit the rewritten file keeps both, where the claimed rewrite would hold the unit once
  and no comment.
\<close>

theorem removeURLFromFile_keeps_comments_and_duplicates:
  "file_after worklist_example ''projects.txt'' ''b'' = Inr ''# c\<newline>a\<newline>a\<newline>''
   \<and> claimed_rewrite ''# c\<newline>a\<newline> a \<newline>\<newline>b\<newline>'' ''b'' = ''a\<newline>''"
  by (simp only: file_after_example claimed_rewrite_example)

text \<open>
  C4, amended.  After a successful \<open>removeURLFromFile\<close> the file holds the trimmed lines
  of the old content that are neither blank nor equal to the unit, in their original
  order, each followed by a newline (a lone newline when none is left); comment lines and
  duplicates of other units stay.  As a set, the lines of the new file that are not blank
  are the trimmed non-blank lines of the old one minus the unit.
\<close>

theorem removeURLFromFile_rewrite:
  assumes "removeURLFromFile fs filePath urlToRemove = Inr fs'"
  shows "\<exists>data data'.
           ReadFile fs filePath = Inr data \<and> ReadFile fs' filePath = Inr data' \<and>
           data' = (if kept_lines data urlToRemove = [] then [CHR 0x0A]
                    else concat (map (\<lambda>l. l @ [CHR 0x0A]) (kept_lines data urlToRemove))) \<and>
           set (filter (\<lambda>l. l \<noteq> []) (Split data' (CHR 0x0A)))
             = set (filter (\<lambda>l. l \<noteq> []) (map TrimSpace (Split data (CHR 0x0A)))) - {urlToRemove}"
proof -
  from removeURLFromFile_Inr [OF assms] obtain data where
    r: "ReadFile fs filePath = Inr data" and
    w: "ReadFile fs' filePath = Inr (Join (kept_lines data urlToRemove) [CHR 0x0A] @ [CHR 0x0A])"
    by blast
  let ?k = "kept_lines data urlToRemove"
  have 1: "Join ?k [CHR 0x0A] @ [CHR 0x0A]
             = (if ?k = [] then [CHR 0x0A] else concat (map (\<lambda>l. l @ [CHR 0x0A]) ?k))"
    by (simp add: Join_concat)
  have 2: "set (filter (\<lambda>l. l \<noteq> []) (Split (Join ?k [CHR 0x0A] @ [CHR 0x0A]) (CHR 0x0A)))
             = set (filter (\<lambda>l. l \<noteq> []) (map TrimSpace (Split data (CHR 0x0A)))) - {urlToRemove}"
    unfolding nonblank_lines_rewritten by (auto simp: kept_lines_def)
  from r w 1 2 show ?thesis by metis
qed


theorem removeURLFromFile_rewrite_witness:
  "\<exists>fs'. removeURLFromFile worklist_example ''projects.txt'' ''b'' = Inr fs' \<and>
     (\<exists>data data'.
           ReadFile worklist_example ''projects.txt'' = Inr data \<and> ReadFile fs' ''projects.txt'' = Inr data' \<and>
           data' = (if kept_lines data ''b'' = [] then [CHR 0x0A]
                    else concat (map (\<lambda>l. l @ [CHR 0x0A]) (kept_lines data ''b''))) \<and>
           set (filter (\<lambda>l. l \<noteq> []) (Split data' (CHR 0x0A)))
             = set (filter (\<lambda>l. l \<noteq> []) (map TrimSpace (Split data (CHR 0x0A)))) - {''b''})"
proof -
  obtain fs' where h: "removeURLFromFile worklist_example ''projects.txt'' ''b'' = Inr fs'"
    by (simp add: removeURLFromFile_def ReadFile_def WriteFile_def worklist_example_def)
  from removeURLFromFile_rewrite [OF h] h show ?thesis by blast
qed

section \<open>Properties of the collector\<close>

lemma collect_rows_old:
  "\<forall>r \<in> set rows. data_id r = [] \<or> data_id r \<in> sn \<Longrightarrow> collect_rows rows (res, sn, k) = (res, sn, k)"
  by (induction rows) auto

lemma scroll_pass_old:
  "\<forall>r \<in> set rows. data_id r = [] \<or> data_id r \<in> seen st \<Longrightarrow>
     scroll_pass rows st = st\<lparr>noNewElementsCount := noNewElementsCount st + 1,
                              totalScrolled := totalScrolled st + scrollStep\<rparr>"
  by (simp add: scroll_pass_def collect_rows_old)

lemma scroll_loop_stall:
  assumes "\<forall>n\<ge>n0. \<forall>rows. provider n = Some rows \<longrightarrow>
             (\<forall>r \<in> set rows. data_id r = [] \<or> data_id r \<in> seen st)"
  shows "\<exists>st'. scroll_loop provider n0 st = Some st' \<and> results st' = results st \<and> seen st' = seen st
           \<and> totalScrolled st' \<le> totalScrolled st + scrollStep * (maxNoNewRetries - noNewElementsCount st)
           \<and> ((\<forall>n\<ge>n0. provider n \<noteq> None) \<longrightarrow>
                 totalScrolled st' = totalScrolled st + scrollStep * (maxNoNewRetries - noNewElementsCount st)
                 \<and> noNewElementsCount st' = max maxNoNewRetries (noNewElementsCount st))"
  using assms
proof (induction "maxNoNewRetries - noNewElementsCount st" arbitrary: n0 st)
  case 0
  then have "\<not> noNewElementsCount st < maxNoNewRetries" by simp
  then show ?case by (subst scroll_loop.simps) (auto simp: max_def)
next
  case (Suc k)
  then have lt: "noNewElementsCount st < maxNoNewRetries" by simp
  show ?case
  proof (cases "provider n0")
    case None
    with lt show ?thesis by (subst scroll_loop.simps) auto
  next
    case (Some rows)
    with Suc.prems have old: "\<forall>r \<in> set rows. data_id r = [] \<or> data_id r \<in> seen st"
      by blast
    let ?st = "st\<lparr>noNewElementsCount := noNewElementsCount st + 1,
                   totalScrolled := totalScrolled st + scrollStep\<rparr>"
    have step: "scroll_loop provider n0 st = scroll_loop provider (Suc n0) ?st"
      using lt Some by (subst scroll_loop.simps) (simp add: scroll_pass_old [OF old])
    have k: "k = maxNoNewRetries - noNewElementsCount ?st" using Suc.hyps(2) by simp
    have pre: "\<forall>n\<ge>Suc n0. \<forall>rows. provider n = Some rows \<longrightarrow>
             (\<forall>r \<in> set rows. data_id r = [] \<or> data_id r \<in> seen ?st)"
    proof (intro allI impI)
      fix n rows
      assume "Suc n0 \<le> n" and p: "provider n = Some rows"
      then have "n0 \<le> n" by simp
      with Suc.prems p have "\<forall>r \<in> set rows. data_id r = [] \<or> data_id r \<in> seen st" by blast
      then show "\<forall>r \<in> set rows. data_id r = [] \<or> data_id r \<in> seen ?st" by simp
    qed
    from Suc.hyps(1) [OF k pre] obtain st' where
      r: "scroll_loop provider (Suc n0) ?st = Some st'" "results st' = results st" "seen st' = seen st"
         "totalScrolled st' \<le> totalScrolled ?st + scrollStep * (maxNoNewRetries - noNewElementsCount ?st)"
         "(\<forall>n\<ge>Suc n0. provider n \<noteq> None) \<longrightarrow>
                 totalScrolled st' = totalScrolled ?st + scrollStep * (maxNoNewRetries - noNewElementsCount ?st)
                 \<and> noNewElementsCount st' = max maxNoNewRetries (noNewElementsCount ?st)"
      by auto
    have a: "scrollStep + scrollStep * (maxNoNewRetries - (noNewElementsCount st + 1))
               = scrollStep * (maxNoNewRetries - noNewElementsCount st)"
    proof -
      from Suc.hyps(2) have "maxNoNewRetries - noNewElementsCount st = Suc (maxNoNewRetries - (noNewElementsCount st + 1))"
        by simp
      then show ?thesis by simp
    qed
    have nn: "(\<forall>n\<ge>n0. provider n \<noteq> None) \<Longrightarrow> (\<forall>n\<ge>Suc n0. provider n \<noteq> None)"
      using Suc_leD by blast
    show ?thesis
      unfolding step using r lt a nn by (auto simp: max_def)
  qed
qed


lemma scroll_loop_invariant:
  assumes pres: "\<And>rows st. I st \<Longrightarrow> I (scroll_pass rows st)"
    and run: "scroll_loop provider n st = Some st'"
    and init: "I st"
  shows "I st'"
proof -
  have "I st \<longrightarrow> I st'"
  proof (rule scroll_loop.raw_induct [where P = "\<lambda>provider n st y. I st \<longrightarrow> I y", OF _ run])
    fix loop :: "(nat \<Rightarrow> row list option) \<Rightarrow> nat \<Rightarrow> collector \<Rightarrow> collector option"
      and provider n st y
    assume IH: "\<And>p n st y. loop p n st = Some y \<Longrightarrow> I st \<longrightarrow> I y"
      and body: "(if noNewElementsCount st < maxNoNewRetries
                  then case provider n of None \<Rightarrow> Some st
                       | Some rows \<Rightarrow> loop provider (Suc n) (scroll_pass rows st)
                  else Some st) = Some y"
    show "I st \<longrightarrow> I y"
    proof
      assume i: "I st"
      show "I y"
      proof (cases "noNewElementsCount st < maxNoNewRetries")
        case False
        with body i show ?thesis by simp
      next
        case True
        show ?thesis
        proof (cases "provider n")
          case None
          with True body i show ?thesis by simp
        next
          case (Some rows)
          with True body have "loop provider (Suc n) (scroll_pass rows st) = Some y" by simp
          from IH [OF this] pres [OF i] show ?thesis by simp
        qed
      qed
    qed
  qed
  with init show ?thesis by simp
qed

lemma collect_rows_distinct:
  "ids_distinct res sn \<Longrightarrow> collect_rows rows (res, sn, k) = (res', sn', k') \<Longrightarrow> ids_distinct res' sn'"
proof (induction rows arbitrary: res sn k)
  case Nil
  then show ?case by simp
next
  case (Cons r rows)
  show ?case
  proof (cases "data_id r = [] \<or> data_id r \<in> sn")
    case True
    with Cons show ?thesis by auto
  next
    case False
    let ?it = "\<lparr>ID = data_id r,
                Original = TrimSpace (case highlight_text r of None \<Rightarrow> base_text r
                                      | Some t \<Rightarrow> if t = [] then base_text r else t),
                Translation = []\<rparr>"
    from False Cons.prems(1) have a: "ids_distinct (res @ [?it]) (insert (data_id r) sn)"
      and b: "ids_distinct res (insert (data_id r) sn)"
      by (auto simp: ids_distinct_def)
    from False Cons.prems(2) Cons.IH [OF a] Cons.IH [OF b] show ?thesis
      by (auto simp: Let_def split: if_splits)
  qed
qed

lemma scroll_pass_distinct:
  "ids_distinct (results st) (seen st) \<Longrightarrow>
     ids_distinct (results (scroll_pass rows st)) (seen (scroll_pass rows st))"
  using collect_rows_distinct [of "results st" "seen st" rows 0]
  by (auto simp: scroll_pass_def split: prod.splits)

lemma collect_rows_nonempty:
  "ids_nonempty res sn \<Longrightarrow> collect_rows rows (res, sn, k) = (res', sn', k') \<Longrightarrow> ids_nonempty res' sn'"
proof (induction rows arbitrary: res sn k)
  case Nil
  then show ?case by simp
next
  case (Cons r rows)
  show ?case
  proof (cases "data_id r = [] \<or> data_id r \<in> sn")
    case True
    with Cons show ?thesis by auto
  next
    case False
    let ?it = "\<lparr>ID = data_id r,
                Original = TrimSpace (case highlight_text r of None \<Rightarrow> base_text r
                                      | Some t \<Rightarrow> if t = [] then base_text r else t),
                Translation = []\<rparr>"
    from False Cons.prems(1) have a: "ids_nonempty (res @ [?it]) (insert (data_id r) sn)"
      and b: "ids_nonempty res (insert (data_id r) sn)"
      by (auto simp: ids_nonempty_def)
    from False Cons.prems(2) Cons.IH [OF a] Cons.IH [OF b] show ?thesis
      by (auto simp: Let_def split: if_splits)
  qed
qed

lemma scroll_pass_nonempty:
  "ids_nonempty (results st) (seen st) \<Longrightarrow>
     ids_nonempty (results (scroll_pass rows st)) (seen (scroll_pass rows st))"
  using collect_rows_nonempty [of "results st" "seen st" rows 0]
  by (auto simp: scroll_pass_def split: prod.splits)

lemma TrimSpace_Hello: "TrimSpace '' Hello '' = ''Hello''"
  by (simp add: TrimSpace_def TrimRightSpace_def DecodeRuneInString_def
        DecodeLastRuneInString_def lastIndexNotSpace.simps IsSpace_def RuneSelf_def Let_def)

lemma scroll_pass_example:
  "scroll_pass example_rows collector_init =
     \<lparr>results = [\<lparr>ID = ''5'', Original = ''Hello'', Translation = []\<rparr>], seen = {''5''},
      noNewElementsCount = 0, totalScrolled = 800\<rparr>"
  by (simp add: scroll_pass_def example_rows_def collector_init_def TrimSpace_Hello scrollStep_def Let_def)

lemma scrollAndCollect_example:
  "scrollAndCollect example_provider = Some [\<lparr>ID = ''5'', Original = ''Hello'', Translation = []\<rparr>]"
proof -
  let ?st = "\<lparr>results = [\<lparr>ID = ''5'', Original = ''Hello'', Translation = []\<rparr>], seen = {''5''},
      noNewElementsCount = 0, totalScrolled = 800\<rparr>"
  have "scroll_loop example_provider 0 collector_init = scroll_loop example_provider (Suc 0) ?st"
    by (subst scroll_loop.simps)
       (simp add: example_provider_def scroll_pass_example, simp add: collector_init_def maxNoNewRetries_def)
  moreover have "\<exists>st'. scroll_loop example_provider (Suc 0) ?st = Some st' \<and> results st' = results ?st"
    using scroll_loop_stall [of "Suc 0" example_provider ?st]
    by (auto simp: example_provider_def)
  ultimately show ?thesis by (auto simp: scrollAndCollect_def)
qed

lemma scrollAndCollect_distinct:
  assumes "scrollAndCollect provider = Some batch"
  shows "distinct (map ID batch)"
proof -
  from assms obtain st' where run: "scroll_loop provider 0 collector_init = Some st'"
    and b: "batch = results st'"
    by (auto simp: scrollAndCollect_def)
  have "ids_distinct (results st') (seen st')"
    by (rule scroll_loop_invariant [where I = "\<lambda>st. ids_distinct (results st) (seen st)", OF _ run])
       (auto simp: scroll_pass_distinct, simp add: ids_distinct_def collector_init_def)
  with b show ?thesis by (simp add: ids_distinct_def)
qed

lemma scrollAndCollect_nonempty:
  assumes "scrollAndCollect provider = Some batch"
  shows "\<forall>it \<in> set batch. ID it \<noteq> []"
proof -
  from assms obtain st' where run: "scroll_loop provider 0 collector_init = Some st'"
    and b: "batch = results st'"
    by (auto simp: scrollAndCollect_def)
  have "ids_nonempty (results st') (seen st')"
    by (rule scroll_loop_invariant [where I = "\<lambda>st. ids_nonempty (results st) (seen st)", OF _ run])
       (auto simp: scroll_pass_nonempty, simp add: ids_nonempty_def collector_init_def)
  with b show ?thesis by (force simp: ids_nonempty_def)
qed

text \<open>
  C6.  When from pass \<open>n0\<close> on the provider shows no row with an id that is not already
  seen (no rows at all included), the loop ends and returns the results and the seen set
  it had; it scrolls at most once per missing stall pass, and when no query fails it
  makes exactly \<open>maxNoNewRetries - noNewElementsCount\<close> passes (exactly 5 from a count
  of 0) and ends with the count at the threshold.
\<close>

theorem scroll_loop_stall_terminates:
  assumes "\<forall>n\<ge>n0. \<forall>rows. provider n = Some rows \<longrightarrow>
             (\<forall>r \<in> set rows. data_id r = [] \<or> data_id r \<in> seen st)"
  shows "\<exists>st'. scroll_loop provider n0 st = Some st' \<and> results st' = results st \<and> seen st' = seen st
           \<and> totalScrolled st' \<le> totalScrolled st + scrollStep * (maxNoNewRetries - noNewElementsCount st)
           \<and> ((\<forall>n\<ge>n0. provider n \<noteq> None) \<longrightarrow>
                 totalScrolled st' = totalScrolled st + scrollStep * (maxNoNewRetries - noNewElementsCount st)
                 \<and> noNewElementsCount st' = max maxNoNewRetries (noNewElementsCount st))"
  using assms by (rule scroll_loop_stall)

text \<open>The provider without rows: five passes, an empty batch.\<close>

theorem scroll_loop_stall_terminates_witness:
  "scrollAndCollect (\<lambda>n. Some []) = Some []
   \<and> (\<exists>st'. scroll_loop (\<lambda>n. Some []) 0 collector_init = Some st' \<and> results st' = []
         \<and> seen st' = {} \<and> totalScrolled st' = 4000 \<and> noNewElementsCount st' = 5)"
  using scroll_loop_stall_terminates [of 0 "\<lambda>n. Some []" collector_init]
  by (auto simp: scrollAndCollect_def collector_init_def maxNoNewRetries_def scrollStep_def)

text \<open>
  C7.  The batch \<open>scrollAndCollect\<close> returns holds no id twice, whatever the snapshots
  repeat; a row whose id is already seen leaves results, seen set and counter as they are.
\<close>

theorem scrollAndCollect_ids_distinct:
  "(scrollAndCollect provider = Some batch \<longrightarrow> distinct (map ID batch))
   \<and> (data_id r \<in> sn \<longrightarrow> collect_rows (r # rows) (res, sn, k) = collect_rows rows (res, sn, k))"
  using scrollAndCollect_distinct [of provider batch] by simp

theorem scrollAndCollect_ids_distinct_witness:
  "scrollAndCollect example_provider = Some [\<lparr>ID = ''5'', Original = ''Hello'', Translation = []\<rparr>]
   \<and> distinct (map ID [\<lparr>ID = ''5'', Original = ''Hello'', Translation = []\<rparr>])
   \<and> data_id (example_rows ! 1) \<in> {''5''}
   \<and> collect_rows [example_rows ! 1] ([\<lparr>ID = ''5'', Original = ''Hello'', Translation = []\<rparr>], {''5''}, 1)
       = ([\<lparr>ID = ''5'', Original = ''Hello'', Translation = []\<rparr>], {''5''}, 1)"
  using scrollAndCollect_ids_distinct [of example_provider
          "[\<lparr>ID = ''5'', Original = ''Hello'', Translation = []\<rparr>]" "example_rows ! 1" "{''5''}" "[]"
          "[\<lparr>ID = ''5'', Original = ''Hello'', Translation = []\<rparr>]" 1]
        scrollAndCollect_example
  by (simp add: example_rows_def)

text \<open>
  C9.  Every item of the batch \<open>scrollAndCollect\<close> returns has an id that is not empty,
  the empty id is never marked seen, and a row whose \<open>data-id\<close> is missing or empty leaves
  results, seen set and counter as they are.
\<close>

theorem scrollAndCollect_ids_nonempty:
  "(scrollAndCollect provider = Some batch \<longrightarrow> (\<forall>it \<in> set batch. ID it \<noteq> []))
   \<and> (scroll_loop provider 0 collector_init = Some st' \<longrightarrow> [] \<notin> seen st')
   \<and> (data_id r = [] \<longrightarrow> collect_rows (r # rows) (res, sn, k) = collect_rows rows (res, sn, k))"
proof -
  have "[] \<notin> seen st'" if run: "scroll_loop provider 0 collector_init = Some st'"
  proof -
    have "ids_nonempty (results st') (seen st')"
      by (rule scroll_loop_invariant [where I = "\<lambda>st. ids_nonempty (results st) (seen st)", OF _ run])
         (auto simp: scroll_pass_nonempty, simp add: ids_nonempty_def collector_init_def)
    then show ?thesis by (simp add: ids_nonempty_def)
  qed
  with scrollAndCollect_nonempty [of provider batch] show ?thesis by simp
qed

theorem scrollAndCollect_ids_nonempty_witness:
  "scrollAndCollect example_provider = Some [\<lparr>ID = ''5'', Original = ''Hello'', Translation = []\<rparr>]
   \<and> ID \<lparr>ID = ''5'', Original = ''Hello'', Translation = []\<rparr> \<noteq> []
   \<and> (\<exists>st'. scroll_loop example_provider 0 collector_init = Some st' \<and> [] \<notin> seen st')
   \<and> data_id (example_rows ! 2) = []
   \<and> collect_rows [example_rows ! 2] ([], {}, 0) = ([], {}, 0)"
proof -
  obtain st' where run: "scroll_loop example_provider 0 collector_init = Some st'"
    using scrollAndCollect_example by (auto simp: scrollAndCollect_def)
  from scrollAndCollect_ids_nonempty [of example_provider
          "[\<lparr>ID = ''5'', Original = ''Hello'', Translation = []\<rparr>]" st' "example_rows ! 2" "[]" "[]" "{}" 0]
       scrollAndCollect_example run
  show ?thesis by (simp add: example_rows_def)
qed

section \<open>Properties of the extractor and of the envelope\<close>

subsection \<open>Evaluation on the inputs of the claims\<close>

lemmas TrimSpace_eval =
  TrimSpace_def TrimRightSpace_def DecodeRuneInString_def DecodeLastRuneInString_def
  lastIndexNotSpace.simps IsSpace_def RuneSelf_def Let_def

lemma trim1: \<open>TrimSpace ''```json\<newline>{"results":[{"id":"5","translation":"x"}]}\<newline>```''
   = ''```json\<newline>{"results":[{"id":"5","translation":"x"}]}\<newline>```''\<close>
  by (simp add: TrimSpace_eval)

lemma trim2: \<open>TrimSpace ''\<newline>{"results":[{"id":"5","translation":"x"}]}\<newline>''
   = ''{"results":[{"id":"5","translation":"x"}]}''\<close>
  by (simp add: TrimSpace_eval)

lemma trim3: \<open>TrimSpace ''prefix text {"results":[{"id":"5","translation":"x"}]} trailing''
   = ''prefix text {"results":[{"id":"5","translation":"x"}]} trailing''\<close>
  by (simp add: TrimSpace_eval)

lemma san1: \<open>sanitizeJSON ''```json\<newline>{"results":[{"id":"5","translation":"x"}]}\<newline>```''
   = ''{"results":[{"id":"5","translation":"x"}]}''\<close>
  unfolding sanitizeJSON_def trim1
  by (simp add: HasPrefix_def HasSuffix_def TrimPrefix_def TrimSuffix_def trim2)

lemma san2: \<open>sanitizeJSON ''prefix text {"results":[{"id":"5","translation":"x"}]} trailing''
   = ''{"results":[{"id":"5","translation":"x"}]}''\<close>
  unfolding sanitizeJSON_def trim3
  by (simp add: HasPrefix_def)

lemmas lex_eval = json_lex_def lex_step_def begin_token_def json_space_def is_digit_def is_hex_def
  num_step_def num_accepting_def lex_end_def

lemmas parse_eval = parse_tokens_def parse_step_def begin_value_def begin_key_def complete_def
  maxNestingDepth_def RuneSelf_def

lemmas decode_eval = decode_response_def is_results_key_def decode_results_def zero_item_def
  decode_item_def item_field_of_def decode_string_def nil_slice_def

lemma lex1: \<open>json_lex ''{"results":[{"id":"5","translation":"x"}]}''
  = Some [TBeginObject, TString ''results'', TColon, TBeginArray, TBeginObject, TString ''id'', TColon,
          TString ''5'', TComma, TString ''translation'', TColon, TString ''x'', TEndObject, TEndArray, TEndObject]\<close>
  by (simp add: lex_eval)

lemma parse1: \<open>parse_tokens [TBeginObject, TString ''results'', TColon, TBeginArray, TBeginObject, TString ''id'', TColon,
          TString ''5'', TComma, TString ''translation'', TColon, TString ''x'', TEndObject, TEndArray, TEndObject]
   = Some (JObject [(''results'', JArray [JObject [(''id'', JString ''5''), (''translation'', JString ''x'')]])])\<close>
  by (simp add: parse_eval)

lemma decode1: \<open>decode_response (JObject [(''results'', JArray [JObject [(''id'', JString ''5''), (''translation'', JString ''x'')]])])
   = Inr \<lparr>Results = Some [\<lparr>ID = ''5'', Original = [], Translation = ''x''\<rparr>]\<rparr>\<close>
  by (simp add: decode_eval)

lemma un1: \<open>Unmarshal ''{"results":[{"id":"5","translation":"x"}]}''
   = Inr \<lparr>Results = Some [\<lparr>ID = ''5'', Original = [], Translation = ''x''\<rparr>]\<rparr>\<close>
  by (simp add: Unmarshal_def json_parse_def lex1 parse1 decode1)

lemma lex3: \<open>json_lex ''{"results": ['' = Some [TBeginObject, TString ''results'', TColon, TBeginArray]\<close>
  by (simp add: lex_eval)

lemma parse3: \<open>json_parse ''{"results": ['' = None\<close>
  by (simp add: json_parse_def lex3 parse_eval)


lemma env1: \<open>unwrap_envelope [(''candidates'', JArray [JObject [(''content'', JObject [(''parts'', JArray [])])]])] = Panics IndexOutOfRange\<close>
  by (simp add: unwrap_envelope_def lookup_def)

lemma env2: \<open>unwrap_envelope [(''candidates'', JArray [JObject [(''finishReason'', JString ''SAFETY'')]])] = Panics InterfaceConversion\<close>
  by (simp add: unwrap_envelope_def lookup_def)

subsection \<open>When the decoder fails\<close>








lemma decode_response_error: "decode_response v = Inl e \<Longrightarrow> e = UnmarshalTypeError"
  by (cases v) (auto simp: decode_response_def split: prod.splits if_splits)



subsection \<open>The claims\<close>

text \<open>
  C1.  The fenced input and the input with text around the object both extract to the
  one item with id 5 and translation x (its source text is empty).
\<close>

theorem extract_items_fenced_and_unfenced:
  \<open>extract_items ''```json\<newline>{"results":[{"id":"5","translation":"x"}]}\<newline>```''
     = Inr (Some [\<lparr>ID = ''5'', Original = [], Translation = ''x''\<rparr>])
   \<and> extract_items ''prefix text {"results":[{"id":"5","translation":"x"}]} trailing''
     = Inr (Some [\<lparr>ID = ''5'', Original = [], Translation = ''x''\<rparr>])\<close>
  by (simp add: extract_items_def san1 san2 un1)








text \<open>
  C3.  The text \<open>{"results": [\<close> extracts to an error (a syntax error, with the text);
  whenever the sanitized text is no valid JSON text, extraction returns the error and
  not an empty result, nil or not.
\<close>

lemma sanitizeJSON_open: \<open>sanitizeJSON ''{"results": ['' = ''{"results": [''\<close>
  by (simp add: sanitizeJSON_def TrimSpace_eval HasPrefix_def)

theorem extract_items_unparseable:
  \<open>extract_items ''{"results": ['' = Inl (ExtractionError SyntaxError ''{"results": ['')
   \<and> (json_parse (sanitizeJSON raw) = None \<longrightarrow>
        extract_items raw = Inl (ExtractionError SyntaxError (sanitizeJSON raw))
        \<and> extract_items raw \<noteq> Inr None \<and> extract_items raw \<noteq> Inr (Some []))\<close>
  by (simp add: extract_items_def Unmarshal_def sanitizeJSON_open parse3)

theorem extract_items_unparseable_witness:
  \<open>json_parse (sanitizeJSON ''{"results": ['') = None
   \<and> extract_items ''{"results": ['' = Inl (ExtractionError SyntaxError ''{"results": ['')
   \<and> extract_items ''{"results": ['' \<noteq> Inr None \<and> extract_items ''{"results": ['' \<noteq> Inr (Some [])\<close>
  using extract_items_unparseable [of \<open>''{"results": [''\<close>]
  by (simp add: sanitizeJSON_open parse3)

text \<open>
  C5.  The unwrapping is guarded for \<open>candidates\<close> only.  On an envelope whose first
  candidate has no parts the index \<open>parts[0]\<close> is out of range, and on one whose first
  candidate has no content the type assertion on \<open>candidate["content"]\<close> fails: the
  program panics on both and returns no error.
\<close>

theorem unwrap_envelope_panics:
  "unwrap_envelope
     [(''candidates'', JArray [JObject [(''content'', JObject [(''parts'', JArray [])])]])]
     = Panics IndexOutOfRange
   \<and> unwrap_envelope
     [(''candidates'', JArray [JObject [(''finishReason'', JString ''SAFETY'')]])]
     = Panics InterfaceConversion"
  by (simp add: unwrap_envelope_def lookup_def)

section \<open>Extraction of a serialized result\<close>

subsection \<open>Decoding an encoded rune\<close>

lemma byte_char_of: "n < 256 \<Longrightarrow> byte (char_of n) = n"
  by simp

lemma mod_shift: "m < k \<Longrightarrow> (j * k + m) mod k = (m::nat)"
  by simp

lemma first_2: "0xC2 \<le> b \<Longrightarrow> b \<le> 0xDF \<Longrightarrow> first b = Some (2, 0x80, 0xBF)"
  by (simp add: first_def)

lemma first_3:
  "a < 16 \<Longrightarrow> first (224 + a) = Some (3, if a = 0 then 0xA0 else 0x80, if a = 13 then 0x9F else 0xBF)"
  by (simp add: first_def)

lemma first_4:
  "a \<le> 4 \<Longrightarrow> first (240 + a) = Some (4, if a = 0 then 0x90 else 0x80, if a = 4 then 0x8F else 0xBF)"
  by (simp add: first_def)

lemma Decode_1_byte:
  assumes "r < 128"
  shows "DecodeRuneInString (char_of r # t) = (r, 1)"
  using assms by (simp add: DecodeRuneInString_def RuneSelf_def)

lemma Decode_2_bytes:
  assumes "2 \<le> q" "q \<le> 31" "m < 64"
  shows "DecodeRuneInString (char_of (192 + q) # char_of (128 + m) # t) = (64 * q + m, 2)"
proof -
  have v: "byte (char_of (192 + q)) = 192 + q" "byte (char_of (128 + m)) = 128 + m"
    using assms by (simp_all add: byte_char_of del: of_char_of)
  have f: "first (192 + q) = Some (2, 0x80, 0xBF)"
    using assms by (intro first_2) simp_all
  have m1: "(192 + q) mod 32 = q"
    using mod_shift [of q 32 6] assms by simp
  have m2: "(128 + m) mod 64 = m"
    using mod_shift [of m 64 2] assms by simp
  show ?thesis
    unfolding DecodeRuneInString_def
    using assms by (simp add: v f m1 m2 RuneSelf_def Let_def del: of_char_of)
qed

lemma Decode_3_bytes:
  assumes "a < 16" "b < 64" "c < 64" "a = 0 \<longrightarrow> 32 \<le> b" "a = 13 \<longrightarrow> b < 32"
  shows "DecodeRuneInString (char_of (224 + a) # char_of (128 + b) # char_of (128 + c) # t)
           = (4096 * a + 64 * b + c, 3)"
proof -
  have v: "byte (char_of (224 + a)) = 224 + a" "byte (char_of (128 + b)) = 128 + b"
    "byte (char_of (128 + c)) = 128 + c"
    using assms by (simp_all add: byte_char_of del: of_char_of)
  have m0: "(224 + a) mod 16 = a"
    using mod_shift [of a 16 14] assms by simp
  have m1: "(128 + b) mod 64 = b"
    using mod_shift [of b 64 2] assms by simp
  have m2: "(128 + c) mod 64 = c"
    using mod_shift [of c 64 2] assms by simp
  show ?thesis
    unfolding DecodeRuneInString_def
    using assms by (simp add: v first_3 m0 m1 m2 RuneSelf_def Let_def del: of_char_of) auto
qed

lemma Decode_4_bytes:
  assumes "a \<le> 4" "b < 64" "c < 64" "d < 64" "a = 0 \<longrightarrow> 16 \<le> b" "a = 4 \<longrightarrow> b < 16"
  shows "DecodeRuneInString
           (char_of (240 + a) # char_of (128 + b) # char_of (128 + c) # char_of (128 + d) # t)
           = (262144 * a + 4096 * b + 64 * c + d, 4)"
proof -
  have v: "byte (char_of (240 + a)) = 240 + a" "byte (char_of (128 + b)) = 128 + b"
    "byte (char_of (128 + c)) = 128 + c" "byte (char_of (128 + d)) = 128 + d"
    using assms by (simp_all add: byte_char_of del: of_char_of)
  have m0: "(240 + a) mod 8 = a"
    using mod_shift [of a 8 30] assms by simp
  have m1: "(128 + b) mod 64 = b"
    using mod_shift [of b 64 2] assms by simp
  have m2: "(128 + c) mod 64 = c"
    using mod_shift [of c 64 2] assms by simp
  have m3: "(128 + d) mod 64 = d"
    using mod_shift [of d 64 2] assms by simp
  show ?thesis
    unfolding DecodeRuneInString_def
    using assms by (simp add: v first_4 m0 m1 m2 m3 RuneSelf_def Let_def del: of_char_of) auto
qed

lemma div_mod_64: "(r::nat) = 64 * (r div 64) + r mod 64"
  by simp

lemma div_4096: "(r::nat) div 4096 = r div 64 div 64"
  by (simp add: div_mult2_eq)

lemma div_262144: "(r::nat) div 262144 = r div 4096 div 64"
  by (simp add: div_mult2_eq)

lemma split3: "(r::nat) = 4096 * (r div 4096) + 64 * ((r div 64) mod 64) + r mod 64"
proof -
  have "r div 64 = 64 * (r div 64 div 64) + (r div 64) mod 64" by simp
  then have "64 * (r div 64) = 4096 * (r div 64 div 64) + 64 * ((r div 64) mod 64)"
    by linarith
  with div_mod_64 [of r] show ?thesis unfolding div_4096 by linarith
qed

lemma split4:
  "(r::nat) = 262144 * (r div 262144) + 4096 * ((r div 4096) mod 64) + 64 * ((r div 64) mod 64) + r mod 64"
proof -
  have "r div 4096 = 64 * (r div 4096 div 64) + (r div 4096) mod 64" by simp
  then have "4096 * (r div 4096) = 262144 * (r div 4096 div 64) + 4096 * ((r div 4096) mod 64)"
    by linarith
  with split3 [of r] show ?thesis unfolding div_262144 by linarith
qed

lemma char_of_eq: "byte c = n \<Longrightarrow> char_of n = c"
  by auto

lemma EncodeRune_RuneError: "EncodeRune RuneError = [CHR 0xEF, CHR 0xBF, CHR 0xBD]"
  by (simp add: EncodeRune_def RuneError_def char_of_eq)

lemma Decode_replacement: "DecodeRuneInString (CHR 0xEF # CHR 0xBF # CHR 0xBD # t) = (RuneError, 3)"
  by (simp add: DecodeRuneInString_def first_def RuneSelf_def RuneError_def Let_def)

lemma Decode_Encode:
  "DecodeRuneInString (EncodeRune r @ t) = (norm_rune r, length (EncodeRune r))"
proof -
  consider (one) "r \<le> 0x7F" | (two) "0x7F < r" "r \<le> 0x7FF"
    | (bad) "0x7FF < r" "0x10FFFF < r \<or> (0xD800 \<le> r \<and> r \<le> 0xDFFF)"
    | (three) "0x7FF < r" "r \<le> 0xFFFF" "\<not> (0xD800 \<le> r \<and> r \<le> 0xDFFF)"
    | (four) "0xFFFF < r" "r \<le> 0x10FFFF"
    by linarith
  then show ?thesis
  proof cases
    case one
    then show ?thesis
      using Decode_1_byte [of r t] by (simp add: EncodeRune_def norm_rune_def)
  next
    case two
    have "DecodeRuneInString (char_of (192 + r div 64) # char_of (128 + r mod 64) # t)
            = (64 * (r div 64) + r mod 64, 2)"
      using two by (intro Decode_2_bytes) simp_all
    with two show ?thesis
      by (simp add: EncodeRune_def norm_rune_def)
  next
    case bad
    then show ?thesis
      by (auto simp: EncodeRune_def norm_rune_def Decode_replacement)
  next
    case three
    have "DecodeRuneInString (char_of (224 + r div 4096) # char_of (128 + (r div 64) mod 64)
              # char_of (128 + r mod 64) # t)
            = (4096 * (r div 4096) + 64 * ((r div 64) mod 64) + r mod 64, 3)"
    proof (intro Decode_3_bytes)
      show "r div 4096 < 16" using three by simp
      show "r div 4096 = 0 \<longrightarrow> 32 \<le> r div 64 mod 64"
      proof
        assume "r div 4096 = 0"
        then have "r < 4096" by simp
        then have "r div 64 < 64" by simp
        moreover from three have "32 \<le> r div 64" by simp
        ultimately show "32 \<le> r div 64 mod 64" by simp
      qed
      show "r div 4096 = 13 \<longrightarrow> r div 64 mod 64 < 32"
      proof
        assume a: "r div 4096 = 13"
        have "r div 64 = 64 * (r div 4096) + r div 64 mod 64"
          by (simp add: div_4096)
        with a have e: "r div 64 = 832 + r div 64 mod 64" by simp
        from a have "r < 0xE000" by simp
        with three have "r < 0xD800" by simp
        then have "r div 64 < 864" by simp
        with e show "r div 64 mod 64 < 32" by linarith
      qed
    qed simp_all
    moreover have "(0x10FFFF < r \<or> (0xD800 \<le> r \<and> r \<le> 0xDFFF)) = False"
      using three by auto
    ultimately show ?thesis
      using three split3 [of r] by (simp add: EncodeRune_def norm_rune_def; auto)
  next
    case four
    have "DecodeRuneInString (char_of (240 + r div 262144) # char_of (128 + (r div 4096) mod 64)
              # char_of (128 + (r div 64) mod 64) # char_of (128 + r mod 64) # t)
            = (262144 * (r div 262144) + 4096 * ((r div 4096) mod 64)
                 + 64 * ((r div 64) mod 64) + r mod 64, 4)"
    proof (intro Decode_4_bytes)
      show "r div 262144 \<le> 4" using four by simp
      show "r div 262144 = 0 \<longrightarrow> 16 \<le> r div 4096 mod 64"
      proof
        assume "r div 262144 = 0"
        then have "r < 262144" by simp
        then have "r div 4096 < 64" by simp
        moreover from four have "16 \<le> r div 4096" by simp
        ultimately show "16 \<le> r div 4096 mod 64" by simp
      qed
      show "r div 262144 = 4 \<longrightarrow> r div 4096 mod 64 < 16"
      proof
        assume a: "r div 262144 = 4"
        have "r div 4096 = 64 * (r div 262144) + r div 4096 mod 64"
          by (simp add: div_262144)
        with a have e: "r div 4096 = 256 + r div 4096 mod 64" by simp
        from four have "r div 4096 < 272" by simp
        with e show "r div 4096 mod 64 < 16" by linarith
      qed
    qed simp_all
    moreover have "(0x10FFFF < r \<or> (0xD800 \<le> r \<and> r \<le> 0xDFFF)) = False"
      using four by auto
    ultimately show ?thesis
      using four split4 [of r] by (simp add: EncodeRune_def norm_rune_def; auto)
  qed
qed

subsection \<open>The lexer on escaped bytes\<close>

lemma hex_digit_cases:
  assumes "d < 16"
  shows "hex_val (hex_digit d) = Some d \<and> is_hex (hex_digit d)"
proof -
  from assms have "d = 0 \<or> d = 1 \<or> d = 2 \<or> d = 3 \<or> d = 4 \<or> d = 5 \<or> d = 6 \<or> d = 7 \<or> d = 8
      \<or> d = 9 \<or> d = 10 \<or> d = 11 \<or> d = 12 \<or> d = 13 \<or> d = 14 \<or> d = 15"
    by arith
  then show ?thesis
    by (elim disjE) (simp_all add: hex_digit_def hex_val_def is_hex_def is_digit_def)
qed

lemma lex_run_append:
  "lex_run st (a @ b) =
     (case lex_run st a of
        None \<Rightarrow> None
      | Some (ts, st') \<Rightarrow>
          (case lex_run st' b of None \<Rightarrow> None | Some (ts', st'') \<Rightarrow> Some (ts @ ts', st'')))"
  by (induction a arbitrary: st) (auto split: option.splits)

lemma lex_run_plain:
  "\<forall>c \<in> set s. 0x20 \<le> byte c \<and> c \<noteq> CHR 0x22 \<and> c \<noteq> CHR 0x5C \<Longrightarrow>
     lex_run (InString acc) s = Some ([], InString (rev s @ acc))"
  by (induction s arbitrary: acc) (auto simp: lex_step_def)

lemma lex_run_escape_ascii:
  assumes "byte c < 0x80"
  shows "lex_run (InString acc) (escape_ascii c) = Some ([], InString (rev (escape_ascii c) @ acc))"
proof -
  have h: "is_hex (hex_digit (byte c div 16))" "is_hex (hex_digit (byte c mod 16))"
    using assms hex_digit_cases [of "byte c div 16"] hex_digit_cases [of "byte c mod 16"]
    by simp_all
  have z: "is_hex (CHR ''0'')" by (simp add: is_hex_def is_digit_def)
  show ?thesis
    using h z by (auto simp: escape_ascii_def lex_step_def htmlSafe_def)
qed

subsection \<open>\<open>unquote\<close> returns well-formed strings\<close>

lemma EncodeRune_ascii: "r < 0x80 \<Longrightarrow> EncodeRune r = [char_of r]"
  by (simp add: EncodeRune_def)

lemma EncodeRune_byte: "byte c < 0x80 \<Longrightarrow> EncodeRune (byte c) = [c]"
  by (simp add: EncodeRune_def)

lemma append_single: "(@) [c] = (#) c"
  by (rule ext) simp

lemma unquote_escape_ascii:
  assumes "byte c < 0x80"
  shows "unquote (escape_ascii c @ rest) = map_option ((#) c) (unquote rest)"
proof (cases "htmlSafe c")
  case True
  then show ?thesis
    by (simp add: escape_ascii_def htmlSafe_def RuneSelf_def)
next
  case False
  note nsafe = this
  show ?thesis
  proof (cases "c = CHR 0x5C \<or> c = CHR 0x22 \<or> c = CHR 0x08 \<or> c = CHR 0x0C \<or> c = CHR 0x0A
                  \<or> c = CHR 0x0D \<or> c = CHR 0x09")
    case True
    then show ?thesis
      by (elim disjE) (simp_all add: escape_ascii_def htmlSafe_def)
  next
    case False
    let ?hi = "byte c div 16" and ?lo = "byte c mod 16"
    have e: "escape_ascii c = [CHR 0x5C, CHR ''u'', CHR ''0'', CHR ''0'', hex_digit ?hi, hex_digit ?lo]"
      using False nsafe by (simp add: escape_ascii_def)
    have hv: "hex_val (hex_digit ?hi) = Some ?hi" "hex_val (hex_digit ?lo) = Some ?lo"
      using assms hex_digit_cases [of ?hi] hex_digit_cases [of ?lo] by simp_all
    have z: "hex_val (CHR ''0'') = Some 0" by (simp add: hex_val_def is_digit_def)
    have g: "getu4 (escape_ascii c @ rest) = Some (byte c)"
      unfolding e by (simp add: getu4_def hv z)
    have ns: "\<not> IsSurrogate (byte c)"
      using assms by (simp add: IsSurrogate_def)
    show ?thesis
      using g ns assms unfolding e
      by (simp add: EncodeRune_byte append_single)
  qed
qed

lemma EncodeRune_cases:
  assumes "0x80 \<le> r"
  shows "\<exists>c s. EncodeRune r = c # s \<and> s \<noteq> [] \<and> (\<forall>x \<in> set (c # s). 0x80 \<le> byte x)"
proof -
  have b: "0x80 \<le> byte (char_of (n::nat))" if "128 \<le> n" "n < 256" for n
    using that by simp
  consider (two) "r \<le> 0x7FF"
    | (bad) "0x7FF < r" "0x10FFFF < r \<or> (0xD800 \<le> r \<and> r \<le> 0xDFFF)"
    | (three) "0x7FF < r" "r \<le> 0xFFFF" "\<not> (0xD800 \<le> r \<and> r \<le> 0xDFFF)"
    | (four) "0xFFFF < r" "r \<le> 0x10FFFF"
    by linarith
  then show ?thesis
  proof cases
    case two
    with assms have "EncodeRune r = [char_of (0xC0 + r div 64), char_of (0x80 + r mod 64)]"
      by (simp add: EncodeRune_def)
    moreover have "0x80 \<le> byte (char_of (0xC0 + r div 64))" using two by (intro b) simp_all
    moreover have "0x80 \<le> byte (char_of (0x80 + r mod 64))" by (intro b) simp_all
    ultimately show ?thesis by simp
  next
    case bad
    then have "EncodeRune r = [CHR 0xEF, CHR 0xBF, CHR 0xBD]"
      by (auto simp: EncodeRune_def)
    then show ?thesis by simp
  next
    case three
    then have "EncodeRune r = [char_of (0xE0 + r div 4096), char_of (0x80 + (r div 64) mod 64),
              char_of (0x80 + r mod 64)]"
      by (auto simp: EncodeRune_def)
    moreover have "0x80 \<le> byte (char_of (0xE0 + r div 4096))" using three by (intro b) simp_all
    moreover have "0x80 \<le> byte (char_of (0x80 + (r div 64) mod 64))" by (intro b) simp_all
    moreover have "0x80 \<le> byte (char_of (0x80 + r mod 64))" by (intro b) simp_all
    ultimately show ?thesis by simp
  next
    case four
    then have "EncodeRune r = [char_of (0xF0 + r div 262144), char_of (0x80 + (r div 4096) mod 64),
            char_of (0x80 + (r div 64) mod 64), char_of (0x80 + r mod 64)]"
      by (auto simp: EncodeRune_def)
    moreover have "0x80 \<le> byte (char_of (0xF0 + r div 262144))" using four by (intro b) simp_all
    moreover have "0x80 \<le> byte (char_of (0x80 + (r div 4096) mod 64))" by (intro b) simp_all
    moreover have "0x80 \<le> byte (char_of (0x80 + (r div 64) mod 64))" by (intro b) simp_all
    moreover have "0x80 \<le> byte (char_of (0x80 + r mod 64))" by (intro b) simp_all
    ultimately show ?thesis by simp
  qed
qed

lemma EncodeRune_norm: "EncodeRune (norm_rune r) = EncodeRune r"
proof (cases "0x10FFFF < r \<or> (0xD800 \<le> r \<and> r \<le> 0xDFFF)")
  case True
  then have "EncodeRune r = [CHR 0xEF, CHR 0xBF, CHR 0xBD]"
    by (auto simp: EncodeRune_def)
  with True show ?thesis
    by (simp add: norm_rune_def EncodeRune_RuneError)
next
  case False
  then show ?thesis by (auto simp: norm_rune_def)
qed

lemma norm_rune_ge: "0x80 \<le> r \<Longrightarrow> 0x80 \<le> norm_rune r"
  by (simp add: norm_rune_def RuneError_def)

lemma wf_EncodeRune: "wf_string t \<Longrightarrow> wf_string (EncodeRune r @ t)"
proof (cases "r < 0x80")
  case True
  assume "wf_string t"
  with True show ?thesis
    by (simp add: EncodeRune_ascii wf_ascii)
next
  case False
  assume "wf_string t"
  with False show ?thesis by (simp add: wf_rune)
qed

lemma simple_escape_ascii: "simple_escape e = Some x \<Longrightarrow> byte x < 0x80"
  unfolding simple_escape_def by (auto split: if_splits)

lemma unquote_simple:
  "e \<noteq> CHR ''u'' \<Longrightarrow>
     unquote (CHR 0x5C # e # s') =
       (case simple_escape e of None \<Rightarrow> None | Some x \<Rightarrow> map_option ((#) x) (unquote s'))"
  by (simp add: simple_escape_def)

lemma unquote_u:
  "unquote (CHR 0x5C # CHR ''u'' # s') =
     (case getu4 (CHR 0x5C # CHR ''u'' # s') of
        None \<Rightarrow> None
      | Some rr \<Rightarrow>
          if IsSurrogate rr then
            (if utf16_DecodeRune rr (getu4 (drop 4 s')) \<noteq> RuneError
             then map_option ((@) (EncodeRune (utf16_DecodeRune rr (getu4 (drop 4 s')))))
                    (unquote (drop 10 s'))
             else map_option ((@) (EncodeRune RuneError)) (unquote (drop 4 s')))
          else map_option ((@) (EncodeRune rr)) (unquote (drop 4 s')))"
  by (simp add: Let_def split: option.split)

lemma unquote_ascii:
  "c \<noteq> CHR 0x5C \<Longrightarrow> c \<noteq> CHR 0x22 \<Longrightarrow> 0x20 \<le> byte c \<Longrightarrow> byte c < 0x80 \<Longrightarrow>
     unquote (c # s) = map_option ((#) c) (unquote s)"
  by (simp add: RuneSelf_def)

lemma unquote_control:
  "c \<noteq> CHR 0x5C \<Longrightarrow> c = CHR 0x22 \<or> byte c < 0x20 \<Longrightarrow> unquote (c # s) = None"
  by simp

lemma unquote_high:
  "0x80 \<le> byte c \<Longrightarrow>
     unquote (c # s) =
       (case DecodeRuneInString (c # s) of
          (rr, n) \<Rightarrow> map_option ((@) (EncodeRune rr)) (unquote (drop n (c # s))))"
  by (auto simp: RuneSelf_def)

lemma unquote_end: "unquote [CHR 0x5C] = None"
  by simp

declare unquote.simps(2) [simp del]

lemma unquote_step:
  assumes "unquote (c # s) = Some t"
  shows "\<exists>chunk rest t'. t = chunk @ t' \<and> unquote rest = Some t' \<and> length rest < Suc (length s)
           \<and> ((\<exists>x. chunk = [x] \<and> byte x < 0x80) \<or> (\<exists>r. chunk = EncodeRune r))"
proof (cases "c = CHR 0x5C")
  case True
  note bs = this
  show ?thesis
  proof (cases s)
    case Nil
    with assms bs show ?thesis by (simp add: unquote_end)
  next
    case (Cons e s')
    show ?thesis
    proof (cases "e = CHR ''u''")
      case False
      from assms bs Cons unquote_simple [OF False, of s'] obtain x t' where
        "simple_escape e = Some x" "unquote s' = Some t'" "t = x # t'"
        by (auto split: option.splits)
      then have "t = [x] @ t'" "unquote s' = Some t'" "byte x < 0x80"
        using simple_escape_ascii by simp_all
      moreover have "length s' < Suc (length s)" using Cons by simp
      ultimately show ?thesis by blast
    next
      case True
      have "\<exists>r rest t'. t = EncodeRune r @ t' \<and> unquote rest = Some t' \<and> (rest = drop 4 s' \<or> rest = drop 10 s')"
        using assms bs Cons True unquote_u [of s'] by (auto split: option.splits if_splits)
      then obtain r rest t' where "t = EncodeRune r @ t'" "unquote rest = Some t'"
        "rest = drop 4 s' \<or> rest = drop 10 s'" by blast
      moreover from this Cons have "length rest < Suc (length s)" by auto
      ultimately show ?thesis by blast
    qed
  qed
next
  case False
  note nbs = this
  show ?thesis
  proof (cases "byte c < 0x80")
    case True
    show ?thesis
    proof (cases "c = CHR 0x22 \<or> byte c < 0x20")
      case True
      with assms nbs unquote_control [of c s] show ?thesis by simp
    next
      case False
      with assms nbs True unquote_ascii [of c s] obtain t' where "t = [c] @ t'" "unquote s = Some t'"
        by (cases "unquote s") auto
      with True show ?thesis by (metis lessI)
    qed
  next
    case False
    obtain rr n where d: "DecodeRuneInString (c # s) = (rr, n)" by force
    with assms False unquote_high [of c s] obtain t' where
      "t = EncodeRune rr @ t'" "unquote (drop n (c # s)) = Some t'"
      by (cases "unquote (drop n (c # s))") auto
    moreover have "0 < n" using DecodeRuneInString_size_pos [of "c # s"] d by simp
    then have "length (drop n (c # s)) < Suc (length s)" by simp
    ultimately show ?thesis by blast
  qed
qed

lemma unquote_wf: "unquote s = Some t \<Longrightarrow> wf_string t"
proof (induction "length s" arbitrary: s t rule: less_induct)
  case less
  show ?case
  proof (cases s)
    case Nil
    with less.prems show ?thesis by (simp add: wf_Nil)
  next
    case (Cons c s')
    with less.prems unquote_step [of c s' t] obtain chunk rest t' where
      t: "t = chunk @ t'" and r: "unquote rest = Some t'" and l: "length rest < Suc (length s')"
      and ch: "(\<exists>x. chunk = [x] \<and> byte x < 0x80) \<or> (\<exists>r. chunk = EncodeRune r)"
      by blast
    from l Cons have "length rest < length s" by simp
    from less.hyps [OF this r] have "wf_string t'" .
    with ch t show ?thesis
      by (auto simp: wf_ascii wf_EncodeRune)
  qed
qed

subsection \<open>Escaping and unquoting a well-formed string\<close>

lemma escape_string_ascii:
  "byte c < 0x80 \<Longrightarrow> escape_string (c # t) = escape_ascii c @ escape_string t"
  by (simp add: RuneSelf_def)

lemma escape_string_rune:
  assumes "0x80 \<le> r"
  shows "escape_string (EncodeRune r @ t) = escape_rune r @ escape_string t"
proof -
  from EncodeRune_cases [OF assms] obtain c s where
    e: "EncodeRune r = c # s" and s: "s \<noteq> []" and hi: "0x80 \<le> byte c"
    by auto
  have d: "DecodeRuneInString (c # s @ t) = (norm_rune r, length (c # s))"
    using Decode_Encode [of r t] e by simp
  from s have l: "length (c # s) \<noteq> 1" by (cases s) simp_all
  show ?thesis
    unfolding e using hi d l
    by (simp add: RuneSelf_def escape_rune_def e)
qed

lemma lex_run_escape_rune:
  assumes "0x80 \<le> r"
  shows "lex_run (InString acc) (escape_rune r) = Some ([], InString (rev (escape_rune r) @ acc))"
proof (cases "norm_rune r = 0x2028 \<or> norm_rune r = 0x2029")
  case True
  then have "norm_rune r mod 16 = 8 \<or> norm_rune r mod 16 = 9" by auto
  then have h: "is_hex (hex_digit (norm_rune r mod 16))"
    using hex_digit_cases [of "norm_rune r mod 16"] by auto
  have z: "is_hex (CHR ''0'')" "is_hex (CHR ''2'')" by (simp_all add: is_hex_def is_digit_def)
  from True h z show ?thesis
    by (simp add: escape_rune_def lex_step_def)
next
  case False
  from EncodeRune_cases [OF assms] have "\<forall>x \<in> set (EncodeRune r). 0x80 \<le> byte x" by auto
  then have "\<forall>c \<in> set (EncodeRune r). 0x20 \<le> byte c \<and> c \<noteq> CHR 0x22 \<and> c \<noteq> CHR 0x5C"
    by fastforce
  from lex_run_plain [OF this] False show ?thesis
    by (simp add: escape_rune_def)
qed

lemma lex_run_escape_string:
  "wf_string t \<Longrightarrow>
     lex_run (InString acc) (escape_string t) = Some ([], InString (rev (escape_string t) @ acc))"
proof (induction t arbitrary: acc rule: wf_string.induct)
  case wf_Nil
  then show ?case by simp
next
  case (wf_ascii t c)
  then show ?case
    by (simp add: escape_string_ascii lex_run_append lex_run_escape_ascii del: escape_string.simps)
next
  case (wf_rune t r)
  then show ?case
    by (simp add: escape_string_rune lex_run_append lex_run_escape_rune del: escape_string.simps)
qed

lemma unquote_escape_rune:
  assumes "0x80 \<le> r"
  shows "unquote (escape_rune r @ rest) = map_option ((@) (EncodeRune r)) (unquote rest)"
proof (cases "norm_rune r = 0x2028 \<or> norm_rune r = 0x2029")
  case True
  then have nr: "norm_rune r = r" by (auto simp: norm_rune_def RuneError_def split: if_splits)
  from True have m: "norm_rune r mod 16 = 8 \<or> norm_rune r mod 16 = 9" by auto
  then have hv: "hex_val (hex_digit (norm_rune r mod 16)) = Some (norm_rune r mod 16)"
    using hex_digit_cases [of "norm_rune r mod 16"] by auto
  have z: "hex_val (CHR ''0'') = Some 0" "hex_val (CHR ''2'') = Some 2"
    by (simp_all add: hex_val_def is_digit_def)
  have g: "getu4 (escape_rune r @ rest) = Some r"
    using True hv z nr by (auto simp: escape_rune_def getu4_def)
  have ns: "\<not> IsSurrogate r" using True nr by (auto simp: IsSurrogate_def)
  have e: "escape_rune r @ rest = CHR 0x5C # CHR ''u'' # ([CHR ''2'', CHR ''0'', CHR ''2'',
             hex_digit (norm_rune r mod 16)] @ rest)"
    using True by (simp add: escape_rune_def)
  show ?thesis
    using g ns unfolding e by (simp add: unquote_u)
next
  case False
  from EncodeRune_cases [OF assms] obtain c s where
    e: "EncodeRune r = c # s" and hi: "0x80 \<le> byte c"
    by auto
  have d: "DecodeRuneInString (c # s @ rest) = (norm_rune r, length (c # s))"
    using Decode_Encode [of r rest] e by simp
  have "unquote (c # s @ rest) = map_option ((@) (EncodeRune (norm_rune r))) (unquote rest)"
    using unquote_high [OF hi, of "s @ rest"] d by simp
  with False e show ?thesis
    by (simp add: escape_rune_def EncodeRune_norm)
qed

lemma unquote_escape_string: "wf_string t \<Longrightarrow> unquote (escape_string t) = Some t"
proof (induction t rule: wf_string.induct)
  case wf_Nil
  then show ?case by simp
next
  case (wf_ascii t c)
  then show ?case
    by (simp add: escape_string_ascii unquote_escape_ascii del: escape_string.simps)
next
  case (wf_rune t r)
  then show ?case
    by (simp add: escape_string_rune unquote_escape_rune del: escape_string.simps)
qed

lemma lex_run_marshal_string:
  assumes "wf_string s"
  shows "lex_run InValue (marshal_string s @ rest) =
           (case lex_run InValue rest of
              None \<Rightarrow> None
            | Some (ts, st) \<Rightarrow> Some (TString (escape_string s) # ts, st))"
proof -
  have "lex_run (InString []) (escape_string s @ CHR 0x22 # rest) =
          (case lex_run InValue rest of
              None \<Rightarrow> None
            | Some (ts, st) \<Rightarrow> Some (TString (escape_string s) # ts, st))"
    by (simp add: lex_run_append lex_run_escape_string [OF assms] lex_step_def split: option.splits)
  then show ?thesis
    by (simp add: marshal_string_def lex_step_def begin_token_def json_space_def
          split: option.splits)
qed

subsection \<open>The tokens of a serialized response\<close>

lemma lexes_append: "lexes a ta \<Longrightarrow> lexes b tb \<Longrightarrow> lexes (a @ b) (ta @ tb)"
  by (simp add: lexes_def lex_run_append)

lemma lexes_marshal_string: "wf_string s \<Longrightarrow> lexes (marshal_string s) [TString (escape_string s)]"
  using lex_run_marshal_string [of s "[]"] by (simp add: lexes_def)

lemma lexes_id: \<open>lexes ''{"id":'' [TBeginObject, TString ''id'', TColon]\<close>
  by (simp add: lexes_def lex_eval)

lemma lexes_text: \<open>lexes '',"text":'' [TComma, TString ''text'', TColon]\<close>
  by (simp add: lexes_def lex_eval)

lemma lexes_translation: \<open>lexes '',"translation":'' [TComma, TString ''translation'', TColon]\<close>
  by (simp add: lexes_def lex_eval)

lemma lexes_results: \<open>lexes ''{"results":'' [TBeginObject, TString ''results'', TColon]\<close>
  by (simp add: lexes_def lex_eval)

lemma lexes_punct:
  "lexes ''}'' [TEndObject]" "lexes '','' [TComma]" "lexes ''['' [TBeginArray]"
  "lexes '']'' [TEndArray]" "lexes ''null'' [TNull]" "lexes [] []"
  by (simp_all add: lexes_def lex_eval)

lemma lexes_marshal_item:
  assumes "wf_item it"
  shows "lexes (marshal_item it) (item_tokens it)"
proof -
  from assms have w: "wf_string (ID it)" "wf_string (Original it)" "wf_string (Translation it)"
    by (simp_all add: wf_item_def)
  have a: "lexes (''{'' @ [CHR 0x22] @ ''id'' @ [CHR 0x22] @ '':'' @ marshal_string (ID it))
             ([TBeginObject, TString ''id'', TColon] @ [TString (escape_string (ID it))])"
    using lexes_append [OF lexes_id lexes_marshal_string [OF w(1)]] by simp
  have b: "lexes ('','' @ [CHR 0x22] @ ''text'' @ [CHR 0x22] @ '':'' @ marshal_string (Original it))
             ([TComma, TString ''text'', TColon] @ [TString (escape_string (Original it))])"
    using lexes_append [OF lexes_text lexes_marshal_string [OF w(2)]] by simp
  have c: "lexes (if Translation it = [] then []
                  else '','' @ [CHR 0x22] @ ''translation'' @ [CHR 0x22] @ '':''
                       @ marshal_string (Translation it))
             (if Translation it = [] then []
              else [TComma, TString ''translation'', TColon]
                   @ [TString (escape_string (Translation it))])"
    using lexes_append [OF lexes_translation lexes_marshal_string [OF w(3)]] lexes_punct(6)
    by simp
  note d = lexes_append [OF lexes_append [OF lexes_append [OF a b] c] lexes_punct(1)]
  show ?thesis
  proof (cases "Translation it = []")
    case True
    with d show ?thesis by (simp add: marshal_item_def item_tokens_def)
  next
    case False
    with d show ?thesis by (simp add: marshal_item_def item_tokens_def)
  qed
qed

lemma lexes_marshal_items:
  "\<forall>x \<in> set xs. wf_item x \<Longrightarrow> lexes (marshal_items xs) (items_tokens xs)"
proof (induction xs rule: marshal_items.induct)
  case 1
  then show ?case by (simp add: lexes_punct)
next
  case (2 x)
  then show ?case by (simp add: lexes_marshal_item)
next
  case (3 x y ys)
  then have "lexes (marshal_item x) (item_tokens x)" "lexes (marshal_items (y # ys)) (items_tokens (y # ys))"
    by (simp_all add: lexes_marshal_item)
  from lexes_append [OF this(1) lexes_append [OF lexes_punct(2) this(2)]]
  show ?case by simp
qed

lemma lexes_Marshal:
  assumes "case rs of None \<Rightarrow> True | Some xs \<Rightarrow> \<forall>x \<in> set xs. wf_item x"
  shows "lexes (Marshal \<lparr>Results = rs\<rparr>) (response_tokens rs)"
proof (cases rs)
  case None
  from lexes_append [OF lexes_append [OF lexes_results lexes_punct(5)] lexes_punct(1)]
  show ?thesis using None by (simp add: Marshal_def response_tokens_def)
next
  case (Some xs)
  with assms have "lexes (marshal_items xs) (items_tokens xs)"
    by (simp add: lexes_marshal_items)
  from lexes_append [OF lexes_append [OF lexes_results
         lexes_append [OF lexes_punct(3) lexes_append [OF this lexes_punct(4)]]] lexes_punct(1)]
  show ?thesis using Some by (simp add: Marshal_def response_tokens_def)
qed

lemma json_lex_Marshal:
  assumes "case rs of None \<Rightarrow> True | Some xs \<Rightarrow> \<forall>x \<in> set xs. wf_item x"
  shows "json_lex (Marshal \<lparr>Results = rs\<rparr>) = Some (response_tokens rs)"
  using lexes_Marshal [OF assms] by (simp add: lexes_def json_lex_def lex_end_def)

subsection \<open>The value of a serialized response\<close>

lemma parse_run_append:
  "parse_run cfg (a @ b) = (case parse_run cfg a of None \<Rightarrow> None | Some cfg' \<Rightarrow> parse_run cfg' b)"
  by (induction a arbitrary: cfg) (auto split: option.splits)

lemma unquote_keys:
  "unquote ''id'' = Some ''id''" "unquote ''text'' = Some ''text''"
  "unquote ''translation'' = Some ''translation''" "unquote ''results'' = Some ''results''"
  by (simp_all add: unquote_ascii)

lemma parse_run_item:
  assumes "wf_item it" and "ps = BeginValue \<or> ps = BeginValueOrEmpty"
    and "Suc (length st) < maxNestingDepth"
  shows "parse_run (ps, ArrayFrame es # st) (item_tokens it)
           = Some (EndValue, ArrayFrame (item_json it # es) # st)"
proof -
  from assms(1) have u: "unquote (escape_string (ID it)) = Some (ID it)"
    "unquote (escape_string (Original it)) = Some (Original it)"
    "unquote (escape_string (Translation it)) = Some (Translation it)"
    by (simp_all add: wf_item_def unquote_escape_string)
  from assms(2,3) show ?thesis
    by (auto simp: item_tokens_def item_json_def parse_step_def begin_value_def begin_key_def
        complete_def u unquote_keys)
qed

lemma parse_run_items:
  assumes "\<forall>x \<in> set xs. wf_item x" and "xs \<noteq> []"
    and "ps = BeginValue \<or> ps = BeginValueOrEmpty"
    and "Suc (length st) < maxNestingDepth"
  shows "parse_run (ps, ArrayFrame es # st) (items_tokens xs)
           = Some (EndValue, ArrayFrame (rev (map item_json xs) @ es) # st)"
  using assms
proof (induction xs arbitrary: ps es rule: items_tokens.induct)
  case 1
  then show ?case by simp
next
  case (2 x)
  then show ?case by (simp add: parse_run_item)
next
  case (3 x y ys)
  from 3 have a: "parse_run (ps, ArrayFrame es # st) (item_tokens x)
                   = Some (EndValue, ArrayFrame (item_json x # es) # st)"
    by (simp add: parse_run_item)
  from 3 have b: "parse_run (BeginValue, ArrayFrame (item_json x # es) # st) (items_tokens (y # ys))
                   = Some (EndValue, ArrayFrame (rev (map item_json (y # ys)) @ item_json x # es) # st)"
    by simp
  show ?case
    using a b by (simp add: parse_run_append parse_step_def)
qed

lemma parse_tokens_response:
  assumes "case rs of None \<Rightarrow> True | Some xs \<Rightarrow> \<forall>x \<in> set xs. wf_item x"
  shows "parse_tokens (response_tokens rs) = Some (response_json rs)"
proof (cases rs)
  case None
  then show ?thesis
    by (simp add: response_tokens_def response_json_def parse_tokens_def parse_step_def
        begin_value_def begin_key_def complete_def unquote_keys maxNestingDepth_def)
next
  case (Some xs)
  show ?thesis
  proof (cases "xs = []")
    case True
    with Some show ?thesis
      by (simp add: response_tokens_def response_json_def parse_tokens_def parse_step_def
          begin_value_def begin_key_def complete_def unquote_keys maxNestingDepth_def)
  next
    case False
    from assms Some have w: "\<forall>x \<in> set xs. wf_item x" by simp
    have p: "parse_run (BeginValueOrEmpty, ArrayFrame [] # [ObjectValueFrame [] ''results''])
               (items_tokens xs)
             = Some (EndValue, ArrayFrame (rev (map item_json xs) @ []) # [ObjectValueFrame [] ''results''])"
      by (rule parse_run_items [OF w False]) (simp_all add: maxNestingDepth_def)
    have "parse_run (BeginValue, []) ([TBeginObject, TString ''results'', TColon, TBeginArray]
            @ items_tokens xs @ [TEndArray, TEndObject])
          = Some (EndTop (response_json rs), [])"
      unfolding parse_run_append
      using p Some
      by (simp add: response_json_def parse_step_def begin_value_def begin_key_def complete_def
          unquote_keys maxNestingDepth_def rev_map)
    then show ?thesis using Some
      by (simp add: response_tokens_def parse_tokens_def)
  qed
qed

subsection \<open>Decoding the value of a serialized response\<close>

lemma item_field_keys:
  "item_field_of ''id'' = Some FieldID" "item_field_of ''text'' = Some FieldOriginal"
  "item_field_of ''translation'' = Some FieldTranslation"
  by (simp_all add: item_field_of_def)

lemma decode_item_json: "decode_item (item_json it) zero_item = (it, True)"
  by (cases it) (simp add: decode_item_def item_json_def item_field_keys decode_string_def zero_item_def)

lemma decode_elements_json: "decode_elements (map item_json xs) [] = (xs, [], True)"
  by (induction xs) (simp_all add: decode_item_json)

lemma decode_response_json: "decode_response (response_json rs) = Inr \<lparr>Results = rs\<rparr>"
proof (cases rs)
  case None
  then show ?thesis
    by (simp add: decode_response_def response_json_def is_results_key_def decode_results_def
        nil_slice_def)
next
  case (Some xs)
  then show ?thesis
    by (cases "xs = []")
      (simp_all add: decode_response_def response_json_def is_results_key_def decode_results_def
        nil_slice_def decode_elements_json)
qed

lemma Unmarshal_Marshal:
  assumes "case rs of None \<Rightarrow> True | Some xs \<Rightarrow> \<forall>x \<in> set xs. wf_item x"
  shows "Unmarshal (Marshal \<lparr>Results = rs\<rparr>) = Inr \<lparr>Results = rs\<rparr>"
  by (simp add: Unmarshal_def json_parse_def json_lex_Marshal [OF assms]
      parse_tokens_response [OF assms] decode_response_json)

subsection \<open>Decoded strings are well formed\<close>

inductive_simps wf_json_simps [simp]:
  "wf_json JNull" "wf_json (JBool b)" "wf_json (JNumber n)" "wf_json (JString s)"
  "wf_json (JArray vs)" "wf_json (JObject ms)"

lemma complete_wf:
  "complete v stack = Some cfg \<Longrightarrow> wf_json v \<Longrightarrow> \<forall>f \<in> set stack. wf_frame f \<Longrightarrow> wf_cfg cfg"
  by (cases stack; cases "hd stack") (auto simp: complete_def)

lemma begin_value_wf:
  assumes "begin_value t stack = Some cfg" and "\<forall>f \<in> set stack. wf_frame f"
  shows "wf_cfg cfg"
proof (cases t)
  case (TString raw)
  with assms(1) obtain s where u: "unquote raw = Some s" and c: "complete (JString s) stack = Some cfg"
    by (auto simp: begin_value_def split: option.splits)
  from unquote_wf [OF u] have "wf_json (JString s)" by simp
  from complete_wf [OF c this assms(2)] show ?thesis .
next
  case (TNumber n)
  with assms(1) have "complete (JNumber n) stack = Some cfg" by (simp add: begin_value_def)
  from complete_wf [OF this _ assms(2)] show ?thesis by simp
next
  case TTrue
  with assms(1) have "complete (JBool True) stack = Some cfg" by (simp add: begin_value_def)
  from complete_wf [OF this _ assms(2)] show ?thesis by simp
next
  case TFalse
  with assms(1) have "complete (JBool False) stack = Some cfg" by (simp add: begin_value_def)
  from complete_wf [OF this _ assms(2)] show ?thesis by simp
next
  case TNull
  with assms(1) have "complete JNull stack = Some cfg" by (simp add: begin_value_def)
  from complete_wf [OF this _ assms(2)] show ?thesis by simp
qed (use assms in \<open>auto simp: begin_value_def split: if_splits\<close>)

lemma begin_key_wf:
  "begin_key t stack = Some cfg \<Longrightarrow> \<forall>f \<in> set stack. wf_frame f \<Longrightarrow> wf_cfg cfg"
  by (cases t; cases stack; cases "hd stack") (auto simp: begin_key_def split: option.splits)

lemma begin_closing [simp]:
  "begin_value TEndArray stack = None" "begin_value TEndObject stack = None"
  "begin_value TComma stack = None" "begin_value TColon stack = None"
  "begin_key TEndObject stack = None" "begin_key TEndArray stack = None"
  "begin_key TComma stack = None"
  by (simp_all add: begin_value_def begin_key_def)

lemma parse_step_wf:
  assumes "parse_step cfg t = Some cfg'" and "wf_cfg cfg"
  shows "wf_cfg cfg'"
proof -
  obtain ps stack where c: "cfg = (ps, stack)" by (cases cfg)
  from assms(2) c have w: "\<forall>f \<in> set stack. wf_frame f" by simp
  show ?thesis
  proof (cases ps)
    case BeginValue
    with assms(1) c w show ?thesis by (auto simp: parse_step_def dest: begin_value_wf)
  next
    case BeginValueOrEmpty
    with assms(1) c w show ?thesis
      by (auto simp: parse_step_def split: token.splits list.splits frame.splits
          dest: begin_value_wf complete_wf)
  next
    case BeginStringOrEmpty
    with assms(1) c w show ?thesis
      by (auto simp: parse_step_def split: token.splits list.splits frame.splits
          dest: begin_key_wf complete_wf)
  next
    case BeginString
    with assms(1) c w show ?thesis by (auto simp: parse_step_def dest: begin_key_wf)
  next
    case ObjectKey
    with assms(1) c w show ?thesis by (auto simp: parse_step_def split: token.splits)
  next
    case EndValue
    with assms(1) c w show ?thesis
      by (auto simp: parse_step_def split: token.splits list.splits frame.splits
          dest: complete_wf)
  next
    case (EndTop v)
    with assms(1) c show ?thesis by (simp add: parse_step_def)
  qed
qed

lemma parse_run_wf: "parse_run cfg ts = Some cfg' \<Longrightarrow> wf_cfg cfg \<Longrightarrow> wf_cfg cfg'"
  by (induction ts arbitrary: cfg) (auto split: option.splits dest: parse_step_wf)

lemma json_parse_wf: "json_parse s = Some v \<Longrightarrow> wf_json v"
proof -
  assume a: "json_parse s = Some v"
  then obtain ts where "parse_tokens ts = Some v"
    by (auto simp: json_parse_def split: option.splits)
  then obtain stack where "parse_run (BeginValue, []) ts = Some (EndTop v, stack)"
    by (auto simp: parse_tokens_def split: option.splits prod.splits parse_state.splits)
  from parse_run_wf [OF this] show ?thesis by simp
qed

lemma decode_string_wf:
  "decode_string v old = (s, ok) \<Longrightarrow> wf_json v \<Longrightarrow> wf_string old \<Longrightarrow> wf_string s"
  by (cases v) (auto simp: decode_string_def)

lemma decode_members_wf:
  "decode_members ms it = (it', ok) \<Longrightarrow> \<forall>m \<in> set ms. wf_json (snd m) \<Longrightarrow> wf_item it \<Longrightarrow>
     wf_item it'"
proof (induction ms arbitrary: it it' ok)
  case Nil
  then show ?case by simp
next
  case (Cons m ms)
  obtain k v where m: "m = (k, v)" by (cases m)
  from Cons.prems m have wv: "wf_json v" and wms: "\<forall>m \<in> set ms. wf_json (snd m)" by simp_all
  show ?case
  proof (cases "item_field_of k")
    case None
    with Cons m wms show ?thesis by simp
  next
    case (Some f)
    obtain s ok1 where d: "decode_string v (case f of FieldID \<Rightarrow> ID it | FieldOriginal \<Rightarrow> Original it
                                            | FieldTranslation \<Rightarrow> Translation it) = (s, ok1)"
      by force
    let ?it = "case f of FieldID \<Rightarrow> it\<lparr>ID := s\<rparr> | FieldOriginal \<Rightarrow> it\<lparr>Original := s\<rparr>
                 | FieldTranslation \<Rightarrow> it\<lparr>Translation := s\<rparr>"
    obtain it2 ok2 where r: "decode_members ms ?it = (it2, ok2)" by force
    from Cons.prems(1) m Some d r have e: "it' = it2"
      by (cases f) auto
    from Cons.prems(3) have "wf_string (case f of FieldID \<Rightarrow> ID it | FieldOriginal \<Rightarrow> Original it
                                            | FieldTranslation \<Rightarrow> Translation it)"
      by (cases f) (simp_all add: wf_item_def)
    from decode_string_wf [OF d wv this] have "wf_string s" .
    with Cons.prems(3) have "wf_item ?it"
      by (cases f) (simp_all add: wf_item_def)
    from Cons.IH [OF r wms this] e show ?thesis by simp
  qed
qed

lemma wf_zero_item: "wf_item zero_item"
  by (simp add: wf_item_def zero_item_def wf_Nil)

lemma decode_item_wf:
  "decode_item v old = (x, ok) \<Longrightarrow> wf_json v \<Longrightarrow> wf_item old \<Longrightarrow> wf_item x"
  by (cases v) (auto simp: decode_item_def dest: decode_members_wf)

lemma decode_elements_wf:
  "decode_elements vs backing = (xs, rest, ok) \<Longrightarrow> \<forall>v \<in> set vs. wf_json v \<Longrightarrow>
     \<forall>x \<in> set backing. wf_item x \<Longrightarrow> (\<forall>x \<in> set xs. wf_item x) \<and> (\<forall>x \<in> set rest. wf_item x)"
proof (induction vs arbitrary: backing xs rest ok)
  case Nil
  then show ?case by simp
next
  case (Cons v vs)
  obtain x ok1 where d: "decode_item v (case backing of [] \<Rightarrow> zero_item | old # _ \<Rightarrow> old) = (x, ok1)"
    by force
  obtain xs' rest' ok2 where r: "decode_elements vs (tl backing) = (xs', rest', ok2)"
    by (cases "decode_elements vs (tl backing)") auto
  from Cons.prems(1) d r have e: "xs = x # xs'" "rest = rest'" by auto
  from Cons.prems(3) have "wf_item (case backing of [] \<Rightarrow> zero_item | old # _ \<Rightarrow> old)"
    by (cases backing) (simp_all add: wf_zero_item)
  from decode_item_wf [OF d _ this] Cons.prems(2) have wx: "wf_item x" by simp
  from Cons.prems(3) have "\<forall>x \<in> set (tl backing). wf_item x"
    by (cases backing) simp_all
  from Cons.IH [OF r _ this] Cons.prems(2) have
    "(\<forall>x \<in> set xs'. wf_item x) \<and> (\<forall>x \<in> set rest'. wf_item x)" by simp
  with wx e show ?case by simp
qed

lemma decode_results_wf:
  assumes "decode_results v sl = (sl', ok)" and "wf_json v" and "wf_slice sl"
  shows "wf_slice sl'"
proof (cases v)
  case (JArray vs)
  show ?thesis
  proof (cases "vs = []")
    case True
    with assms JArray show ?thesis by (auto simp: decode_results_def wf_slice_def)
  next
    case False
    obtain xs rest ok' where d: "decode_elements vs (elems sl @ spare sl) = (xs, rest, ok')"
      by (cases "decode_elements vs (elems sl @ spare sl)") auto
    from assms(3) have "\<forall>x \<in> set (elems sl @ spare sl). wf_item x"
      by (auto simp: wf_slice_def)
    from decode_elements_wf [OF d _ this] assms(2) JArray have
      "(\<forall>x \<in> set xs. wf_item x) \<and> (\<forall>x \<in> set rest. wf_item x)" by simp
    with assms(1) JArray False d show ?thesis
      by (auto simp: decode_results_def wf_slice_def)
  qed
qed (use assms in \<open>auto simp: decode_results_def wf_slice_def nil_slice_def\<close>)

lemma decode_response_members_wf:
  "decode_response_members ms sl = (sl', ok) \<Longrightarrow> \<forall>m \<in> set ms. wf_json (snd m) \<Longrightarrow>
     wf_slice sl \<Longrightarrow> wf_slice sl'"
proof (induction ms arbitrary: sl sl' ok)
  case Nil
  then show ?case by simp
next
  case (Cons m ms)
  obtain k v where m: "m = (k, v)" by (cases m)
  show ?case
  proof (cases "is_results_key k")
    case False
    with Cons m show ?thesis by simp
  next
    case True
    obtain sl1 ok1 where d: "decode_results v sl = (sl1, ok1)" by force
    obtain sl2 ok2 where r: "decode_response_members ms sl1 = (sl2, ok2)" by force
    from Cons.prems(1) m True d r have e: "sl' = sl2" by simp
    from decode_results_wf [OF d _ Cons.prems(3)] Cons.prems(2) m have "wf_slice sl1" by simp
    from Cons.IH [OF r _ this] Cons.prems(2) e show ?thesis by simp
  qed
qed

lemma decode_response_wf:
  assumes "decode_response v = Inr resp" and "wf_json v"
  shows "case Results resp of None \<Rightarrow> True | Some xs \<Rightarrow> \<forall>x \<in> set xs. wf_item x"
proof (cases v)
  case (JObject ms)
  obtain sl ok where d: "decode_response_members ms nil_slice = (sl, ok)" by force
  have "wf_slice nil_slice" by (simp add: wf_slice_def nil_slice_def)
  from decode_response_members_wf [OF d _ this] assms(2) JObject have "wf_slice sl" by simp
  with assms(1) JObject d show ?thesis
    by (auto simp: decode_response_def wf_slice_def split: if_splits)
qed (use assms in \<open>auto simp: decode_response_def\<close>)

lemma Unmarshal_wf:
  assumes "Unmarshal s = Inr resp"
  shows "case Results resp of None \<Rightarrow> True | Some xs \<Rightarrow> \<forall>x \<in> set xs. wf_item x"
proof -
  from assms obtain v where p: "json_parse s = Some v" and d: "decode_response v = Inr resp"
    by (auto simp: Unmarshal_def split: option.splits)
  from decode_response_wf [OF d json_parse_wf [OF p]] show ?thesis .
qed

subsection \<open>Sanitizing a serialized response\<close>

lemma Decode_ascii: "byte c < 0x80 \<Longrightarrow> DecodeRuneInString (c # t) = (byte c, 1)"
  by (simp add: DecodeRuneInString_def RuneSelf_def)

lemma TrimLeftSpace_id: "byte c < 0x80 \<Longrightarrow> \<not> IsSpace (byte c) \<Longrightarrow> TrimLeftSpace (c # t) = c # t"
  by (simp add: Decode_ascii)

lemma TrimRightSpace_id:
  assumes "byte d < 0x80" and "\<not> IsSpace (byte d)"
  shows "TrimRightSpace (m @ [d]) = m @ [d]"
proof -
  have l: "DecodeLastRuneInString (m @ [d]) = (byte d, 1)"
    using assms(1) by (simp add: DecodeLastRuneInString_def RuneSelf_def Let_def)
  have i: "lastIndexNotSpace (m @ [d]) (length (m @ [d])) = int (length m)"
    using assms(2) l by (subst lastIndexNotSpace.simps) simp
  show ?thesis
    unfolding TrimRightSpace_def i using assms(1)
    by (simp add: RuneSelf_def Let_def)
qed

lemma TrimSpace_id:
  assumes "byte c < 0x80" "\<not> IsSpace (byte c)" "byte d < 0x80" "\<not> IsSpace (byte d)"
  shows "TrimSpace (c # m @ [d]) = c # m @ [d]"
  using TrimRightSpace_id [OF assms(3,4), of "c # m"] TrimLeftSpace_id [OF assms(1,2), of "m @ [d]"]
  by (simp add: TrimSpace_def del: TrimLeftSpace.simps)

lemma LastIndex_last: "LastIndex (x @ [c]) [c] = int (length x)"
  by (induction x) (simp_all add: HasPrefix_def Let_def)

lemma sanitizeJSON_braces:
  "sanitizeJSON (CHR ''{'' # m @ ''}'') = CHR ''{'' # m @ ''}''"
proof -
  have t: "TrimSpace (CHR ''{'' # m @ ''}'') = CHR ''{'' # m @ ''}''"
    by (rule TrimSpace_id) (simp_all add: IsSpace_def)
  have p: "\<not> HasPrefix (CHR ''{'' # m @ ''}'') ''```''"
    by (simp add: HasPrefix_def)
  have i: "Index (CHR ''{'' # m @ ''}'') ''{'' = 0"
    by (simp add: HasPrefix_def)
  have l: "LastIndex (CHR ''{'' # m @ ''}'') ''}'' = int (length (CHR ''{'' # m))"
    using LastIndex_last [of "CHR ''{'' # m" "CHR ''}''"] by simp
  show ?thesis
    unfolding sanitizeJSON_def t Let_def using p
    by (simp only: if_False i l) simp
qed

lemma sanitizeJSON_Marshal: "sanitizeJSON (Marshal resp) = Marshal resp"
proof -
  obtain m where "Marshal resp = CHR ''{'' # m @ ''}''"
    by (auto simp: Marshal_def)
  then show ?thesis by (simp only: sanitizeJSON_braces)
qed

lemma extract_items_wf:
  assumes "extract_items raw = Inr rs"
  shows "case rs of None \<Rightarrow> True | Some xs \<Rightarrow> \<forall>x \<in> set xs. wf_item x"
proof -
  from assms obtain resp where u: "Unmarshal (sanitizeJSON raw) = Inr resp" and r: "rs = Results resp"
    by (auto simp: extract_items_def Let_def split: sum.splits)
  from Unmarshal_wf [OF u] r show ?thesis by simp
qed

lemma Marshal_example:
  \<open>Marshal \<lparr>Results = Some [\<lparr>ID = ''5'', Original = [], Translation = ''x''\<rparr>]\<rparr>
     = ''{"results":[{"id":"5","text":"","translation":"x"}]}''\<close>
  by (simp add: Marshal_def marshal_item_def marshal_string_def escape_ascii_def htmlSafe_def
      RuneSelf_def)

text \<open>
  C8.  Extraction is idempotent: when extraction succeeds on a text, the results it
  returns, serialized again by \<open>json.Marshal\<close> as a \<open>GeminiResponse\<close> (an object with the
  member \<open>results\<close>), are extracted successfully to the same results.
\<close>

theorem extract_items_idempotent:
  assumes "extract_items raw = Inr rs"
  shows "extract_items (Marshal \<lparr>Results = rs\<rparr>) = Inr rs"
  using Unmarshal_Marshal [OF extract_items_wf [OF assms]]
  by (simp add: extract_items_def sanitizeJSON_Marshal)

theorem extract_items_idempotent_witness:
  \<open>extract_items ''```json\<newline>{"results":[{"id":"5","translation":"x"}]}\<newline>```''
     = Inr (Some [\<lparr>ID = ''5'', Original = [], Translation = ''x''\<rparr>])
   \<and> Marshal \<lparr>Results = Some [\<lparr>ID = ''5'', Original = [], Translation = ''x''\<rparr>]\<rparr>
     = ''{"results":[{"id":"5","text":"","translation":"x"}]}''
   \<and> extract_items ''{"results":[{"id":"5","text":"","translation":"x"}]}''
     = Inr (Some [\<lparr>ID = ''5'', Original = [], Translation = ''x''\<rparr>])\<close>
proof -
  have e: \<open>extract_items ''```json\<newline>{"results":[{"id":"5","translation":"x"}]}\<newline>```''
     = Inr (Some [\<lparr>ID = ''5'', Original = [], Translation = ''x''\<rparr>])\<close>
    by (simp add: extract_items_def san1 un1)
  from extract_items_idempotent [OF e] e show ?thesis
    unfolding Marshal_example by simp
qed

end
